theory Spec2Isabelle
  imports Main
begin

section \<open>Python values and string operations used by the translator\<close>

text \<open>
  The translator of \<^verbatim>\<open>vm_tr.py\<close> works on Python strings and lists of strings.
  Strings are modelled as \<^typ>\<open>string\<close> (lists of 8-bit characters); the tokens of VM
  code are ASCII. Every exception the source can raise is a value of \<open>error\<close>.
  \<open>Unmodelled\<close> marks the two places where the embedding does not follow Python:
  replacement fields of \<^verbatim>\<open>str.format\<close> that are more than a plain name, and
  calling a class attribute that is not one of the translating methods.
\<close>

datatype error = KeyError | IndexError | ValueError | AttributeError | Unmodelled

text \<open>The values handed to \<^verbatim>\<open>str.format\<close>: strings, \<^verbatim>\<open>None\<close> and integers.\<close>

datatype pyval = PStr string | PNone | PInt int

definition digit_char :: "nat \<Rightarrow> char" where
  "digit_char d = char_of (48 + d)"

fun str_nat :: "nat \<Rightarrow> string" where
  "str_nat n = (if n < 10 then [digit_char n] else str_nat (n div 10) @ [digit_char (n mod 10)])"

declare str_nat.simps [simp del]

definition str_int :: "int \<Rightarrow> string" where
  "str_int i = (if i < 0 then CHR ''-'' # str_nat (nat (- i)) else str_nat (nat i))"

text \<open>\<^verbatim>\<open>str(v)\<close>, as \<^verbatim>\<open>format\<close> renders a value with an empty format spec.\<close>

fun py_str :: "pyval \<Rightarrow> string" where
  "py_str (PStr s) = s"
| "py_str PNone = ''None''"
| "py_str (PInt i) = str_int i"

text \<open>ASCII whitespace, as \<^verbatim>\<open>str.split()\<close>, \<^verbatim>\<open>str.strip()\<close> and \<^verbatim>\<open>int()\<close> see it.\<close>

definition is_space :: "char \<Rightarrow> bool" where
  "is_space c = (let k = (of_char c :: nat) in (9 \<le> k \<and> k \<le> 13) \<or> (28 \<le> k \<and> k \<le> 32))"

definition is_digit :: "char \<Rightarrow> bool" where
  "is_digit c = (let k = (of_char c :: nat) in 48 \<le> k \<and> k \<le> 57)"

definition digit_val :: "char \<Rightarrow> nat" where
  "digit_val c = of_char c - 48"

definition strip :: "string \<Rightarrow> string" where
  "strip s = rev (dropWhile is_space (rev (dropWhile is_space s)))"

text \<open>
  The digits of a decimal literal after its first digit: single underscores are allowed
  between digits only.
\<close>

fun digits_val :: "nat \<Rightarrow> string \<Rightarrow> nat option" where
  "digits_val acc [] = Some acc"
| "digits_val acc (c # cs) =
     (if is_digit c then digits_val (10 * acc + digit_val c) cs
      else if c = CHR ''_'' then
        (case cs of
           [] \<Rightarrow> None
         | d # ds \<Rightarrow> if is_digit d then digits_val (10 * acc + digit_val d) ds else None)
      else None)"

text \<open>
  \<^verbatim>\<open>int(s)\<close> for a string, base 10: surrounding whitespace is stripped, one sign is
  allowed, and anything else raises \<^verbatim>\<open>ValueError\<close>. (CPython's limit on the number of
  digits and non-ASCII digits are not modelled.)
\<close>

definition py_int :: "string \<Rightarrow> error + int" where
  "py_int s =
     (let t = strip s;
          neg = (case t of [] \<Rightarrow> False | c # _ \<Rightarrow> c = CHR ''-'');
          body = (case t of [] \<Rightarrow> [] | c # r \<Rightarrow> if c = CHR ''-'' \<or> c = CHR ''+'' then r else t)
      in case body of
           [] \<Rightarrow> Inl ValueError
         | c # cs \<Rightarrow>
             if is_digit c then
               (case digits_val (digit_val c) cs of
                  None \<Rightarrow> Inl ValueError
                | Some n \<Rightarrow> Inr (if neg then - int n else int n))
             else Inl ValueError)"

text \<open>\<^verbatim>\<open>s.split()\<close>: the maximal runs of non-whitespace characters.\<close>

fun split_ws :: "string \<Rightarrow> string \<Rightarrow> string list" where
  "split_ws w [] = (if w = [] then [] else [rev w])"
| "split_ws w (c # cs) =
     (if is_space c then (if w = [] then split_ws [] cs else rev w # split_ws [] cs)
      else split_ws (c # w) cs)"

definition py_split :: "string \<Rightarrow> string list" where
  "py_split s = split_ws [] s"

text \<open>\<^verbatim>\<open>s.split(sep)\<close> for a one-character separator: empty pieces are kept.\<close>

fun split_on :: "char \<Rightarrow> string \<Rightarrow> string \<Rightarrow> string list" where
  "split_on sep w [] = [rev w]"
| "split_on sep w (c # cs) =
     (if c = sep then rev w # split_on sep [] cs else split_on sep (c # w) cs)"

definition py_split_sep :: "char \<Rightarrow> string \<Rightarrow> string list" where
  "py_split_sep sep s = split_on sep [] s"

text \<open>\<^verbatim>\<open>sep.join(xs)\<close>.\<close>

fun join :: "string \<Rightarrow> string list \<Rightarrow> string" where
  "join sep [] = []"
| "join sep [x] = x"
| "join sep (x # y # ys) = x @ sep @ join sep (y # ys)"

text \<open>\<^verbatim>\<open>sub in s\<close> for strings, and \<^verbatim>\<open>s.endswith(suf)\<close>.\<close>

fun contains :: "string \<Rightarrow> string \<Rightarrow> bool" where
  "contains sub [] = (sub = [])"
| "contains sub (c # cs) = (take (length sub) (c # cs) = sub \<or> contains sub cs)"

definition endswith :: "string \<Rightarrow> string \<Rightarrow> bool" where
  "endswith s suf = (length suf \<le> length s \<and> drop (length s - length suf) s = suf)"

text \<open>\<^verbatim>\<open>s.upper()\<close> on ASCII letters (the source applies it to \<^verbatim>\<open>lt\<close>, \<^verbatim>\<open>eq\<close>, \<^verbatim>\<open>gt\<close> only).\<close>

definition upper_char :: "char \<Rightarrow> char" where
  "upper_char c = (let k = (of_char c :: nat) in if 97 \<le> k \<and> k \<le> 122 then char_of (k - 32) else c)"

definition upper :: "string \<Rightarrow> string" where
  "upper s = map upper_char s"

subsection \<open>Template substitution\<close>

text \<open>
  \<^verbatim>\<open>raw_code.format(**kw)\<close>. The string is read left to right: \<^verbatim>\<open>{{\<close> and \<^verbatim>\<open>}}\<close>
  are literal braces, \<^verbatim>\<open>{name}\<close> is replaced by \<^verbatim>\<open>str(kw[name])\<close> and raises
  \<^verbatim>\<open>KeyError\<close> when the name is missing, and a lone brace raises \<^verbatim>\<open>ValueError\<close>.
  The second argument is \<open>None\<close> outside a replacement field and holds the characters of
  the field's name read so far (reversed) inside one. Fields with a conversion, a format
  spec, an attribute or index, a nested brace, an empty name or a positional index are
  outside the model.
\<close>

definition plain_field_char :: "char \<Rightarrow> bool" where
  "plain_field_char c = (c \<notin> set ''{!:.[]'')"

definition emit :: "string \<Rightarrow> error + string \<Rightarrow> error + string" where
  "emit pre r = (case r of Inl e \<Rightarrow> Inl e | Inr out \<Rightarrow> Inr (pre @ out))"

fun fmt :: "(string \<rightharpoonup> pyval) \<Rightarrow> string option \<Rightarrow> string \<Rightarrow> error + string" where
  "fmt kw None [] = Inr []"
| "fmt kw None (c # cs) =
     (if c = CHR ''{'' then
        (case cs of
           [] \<Rightarrow> Inl ValueError
         | d # ds \<Rightarrow> if d = CHR ''{'' then emit ''{'' (fmt kw None ds) else fmt kw (Some []) cs)
      else if c = CHR ''}'' then
        (case cs of
           [] \<Rightarrow> Inl ValueError
         | d # ds \<Rightarrow> if d = CHR ''}'' then emit ''}'' (fmt kw None ds) else Inl ValueError)
      else emit [c] (fmt kw None cs))"
| "fmt kw (Some acc) [] = Inl ValueError"
| "fmt kw (Some acc) (c # cs) =
     (if c = CHR ''}'' then
        (if acc = [] \<or> is_digit (last acc) then Inl Unmodelled
         else (case kw (rev acc) of
                 None \<Rightarrow> Inl KeyError
               | Some v \<Rightarrow> emit (py_str v) (fmt kw None cs)))
      else if plain_field_char c then fmt kw (Some (c # acc)) cs
      else Inl Unmodelled)"

definition format :: "string \<Rightarrow> (string \<rightharpoonup> pyval) \<Rightarrow> error + string" where
  "format raw_code kw = fmt kw None raw_code"

section \<open>The class \<^verbatim>\<open>Translator\<close>\<close>

text \<open>
  The translating methods of the class. \<^verbatim>\<open>_func_mappings\<close> holds attributes of the
  class fetched with \<^verbatim>\<open>getattr\<close>; \<open>Other_attr\<close> is any attribute that is not one
  of the eight translating methods.
\<close>

datatype handler =
    H_pop_push
  | H_add_sub_or_and
  | H_neg_not
  | H_lt_eq_gt
  | H_label_goto_if_goto
  | H_function
  | H_call
  | H_return
  | Other_attr string

text \<open>\<^verbatim>\<open>op_func.__name__\<close> for the translating methods.\<close>

fun handler_name :: "handler \<Rightarrow> string" where
  "handler_name H_pop_push = ''_pop_push''"
| "handler_name H_add_sub_or_and = ''_add_sub_or_and''"
| "handler_name H_neg_not = ''_neg_not''"
| "handler_name H_lt_eq_gt = ''_lt_eq_gt''"
| "handler_name H_label_goto_if_goto = ''_label_goto_if_goto''"
| "handler_name H_function = ''_function''"
| "handler_name H_call = ''_call''"
| "handler_name H_return = ''_return''"
| "handler_name (Other_attr a) = a"

text \<open>
  The four class variables: they are shared by all instances and are the whole mutable
  state of a run.
\<close>

record cls =
  code_patterns :: "string \<rightharpoonup> string"
  func_mappings :: "string \<rightharpoonup> handler"
  asm_code :: string
  lt_eq_gt_counter :: "string \<rightharpoonup> int"

definition init_cls :: cls where
  "init_cls = \<lparr> code_patterns = Map.empty, func_mappings = Map.empty, asm_code = [],
                lt_eq_gt_counter = [''lt'' \<mapsto> 0, ''eq'' \<mapsto> 0, ''gt'' \<mapsto> 0] \<rparr>"

text \<open>
  An instance. \<open>pop_push_expr\<close> is the empty string after \<^verbatim>\<open>__init__\<close> (here the empty
  list) and a 3-tuple after \<^verbatim>\<open>_pop_push_helper\<close>.
\<close>

record translator =
  line :: "string list"
  class_name :: string
  cmd :: string
  idx :: int
  pop_push_expr :: "pyval list"

text \<open>\<^verbatim>\<open>Translator(line_lst, class_name, idx)\<close>: \<^verbatim>\<open>line_lst[0]\<close> raises on an empty list.\<close>

definition Translator :: "string list \<Rightarrow> string \<Rightarrow> int \<Rightarrow> error + translator" where
  "Translator line_lst cname i =
     (case line_lst of
        [] \<Rightarrow> Inl IndexError
      | c # _ \<Rightarrow> Inr \<lparr> line = line_lst, class_name = cname, cmd = c, idx = i, pop_push_expr = [] \<rparr>)"

definition get_output :: "cls \<Rightarrow> string" where
  "get_output s = asm_code s"

definition make_comm :: "translator \<Rightarrow> cls \<Rightarrow> cls" where
  "make_comm t s = s \<lparr> asm_code := asm_code s @ (''// '' @ join '' '' (line t) @ [CHR 0x0A]) \<rparr>"

definition loc_dict :: "string \<rightharpoonup> int" where
  "loc_dict = [''local'' \<mapsto> 1, ''argument'' \<mapsto> 2, ''this'' \<mapsto> 3, ''that'' \<mapsto> 4]"

definition pointer_dict :: "bool \<Rightarrow> string" where
  "pointer_dict b = (if b then ''-'' else ''+'')"

text \<open>
  \<^verbatim>\<open>_pop_push_helper\<close>: the offset token is tested for a negative integer, a negative
  one loses its first character, and the tuple of substitutes is chosen by the segment.
  Nothing is raised for a negative offset; the only failures are a missing operand and
  an unknown segment.
\<close>

definition pop_push_helper :: "translator \<Rightarrow> error + translator" where
  "pop_push_helper t =
     (case line t of
        _ # mem_segm # i0 # _ \<Rightarrow>
          (let is_neg = (case py_int i0 of Inr v \<Rightarrow> v < 0 | Inl _ \<Rightarrow> False);
               i = (if is_neg then drop 1 i0 else i0);
               static_expr = [PStr (class_name t), PStr i, PNone];
               temp_expr = [PStr i, PNone, PNone];
               pointer_expr = [PStr i, PStr (pointer_dict is_neg), PNone];
               loc_expr = [PStr (py_str (case loc_dict mem_segm of None \<Rightarrow> PNone | Some v \<Rightarrow> PInt v)),
                           PStr i, PStr (pointer_dict is_neg)];
               const_expr = [PStr i, PNone, PNone];
               op_dict = [''static'' \<mapsto> static_expr, ''temp'' \<mapsto> temp_expr,
                          ''pointer'' \<mapsto> pointer_expr, ''local'' \<mapsto> loc_expr,
                          ''argument'' \<mapsto> loc_expr, ''this'' \<mapsto> loc_expr,
                          ''that'' \<mapsto> loc_expr, ''constant'' \<mapsto> const_expr]
           in case op_dict mem_segm of
                None \<Rightarrow> Inl KeyError
              | Some e \<Rightarrow> Inr (t \<lparr> pop_push_expr := e \<rparr>))
      | _ \<Rightarrow> Inl IndexError)"

definition newline :: "error + string \<Rightarrow> error + string" where
  "newline r = (case r of Inl e \<Rightarrow> Inl e | Inr code \<Rightarrow> Inr (code @ [CHR 0x0A]))"

definition pop_push :: "translator \<Rightarrow> string \<Rightarrow> error + string" where
  "pop_push t raw_code =
     (case pop_push_expr t of
        v1 # v2 # v3 # _ \<Rightarrow>
          newline (format raw_code [''var_1'' \<mapsto> v1, ''var_2'' \<mapsto> v2, ''var_3'' \<mapsto> v3])
      | _ \<Rightarrow> Inl IndexError)"

definition add_sub_or_and :: "translator \<Rightarrow> string \<Rightarrow> error + string" where
  "add_sub_or_and t raw_code =
     (let op_dict = [''add'' \<mapsto> ''+'', ''sub'' \<mapsto> ''-'', ''or'' \<mapsto> ''|'', ''and'' \<mapsto> ''&'']
      in case op_dict (cmd t) of
           None \<Rightarrow> Inl KeyError
         | Some v \<Rightarrow> newline (format raw_code [''var_1'' \<mapsto> PStr v]))"

definition neg_not :: "translator \<Rightarrow> string \<Rightarrow> error + string" where
  "neg_not t raw_code =
     (let op_dict = [''neg'' \<mapsto> ''-'', ''not'' \<mapsto> ''!'']
      in case op_dict (cmd t) of
           None \<Rightarrow> Inl KeyError
         | Some v \<Rightarrow> newline (format raw_code [''var_1'' \<mapsto> PStr v]))"

text \<open>
  \<^verbatim>\<open>_lt_eq_gt\<close>: the counter of the operator is incremented first, and the label index is
  the new value minus one. The jump table is indexed after the increment, so a command
  outside \<^verbatim>\<open>lt\<close>, \<^verbatim>\<open>eq\<close>, \<^verbatim>\<open>gt\<close> fails on the counter.
\<close>

definition jump_dict :: "string \<rightharpoonup> string" where
  "jump_dict = [''lt'' \<mapsto> ''JGT'', ''eq'' \<mapsto> ''JEQ'', ''gt'' \<mapsto> ''JLT'']"

definition lt_eq_gt :: "translator \<Rightarrow> string \<Rightarrow> cls \<Rightarrow> (error + string) \<times> cls" where
  "lt_eq_gt t raw_code s =
     (let op_dict = jump_dict
      in case lt_eq_gt_counter s (cmd t) of
           None \<Rightarrow> (Inl KeyError, s)
         | Some c \<Rightarrow>
             (let s' = s \<lparr> lt_eq_gt_counter := (lt_eq_gt_counter s)(cmd t \<mapsto> c + 1) \<rparr>
              in case op_dict (cmd t) of
                   None \<Rightarrow> (Inl KeyError, s')
                 | Some j \<Rightarrow>
                     (newline (format raw_code
                        [''var_1'' \<mapsto> PStr (upper (cmd t)), ''var_2'' \<mapsto> PStr j,
                         ''var_3'' \<mapsto> PInt (c + 1 - 1)]), s')))"

definition label_goto_if_goto :: "translator \<Rightarrow> string \<Rightarrow> error + string" where
  "label_goto_if_goto t raw_code =
     (case line t of
        _ # lbl_name # _ \<Rightarrow> newline (format raw_code [''var_1'' \<mapsto> PStr lbl_name])
      | _ \<Rightarrow> Inl IndexError)"

subsection \<open>The lists of VM commands built by the expanding methods\<close>

text \<open>\<^verbatim>\<open>cmd_lst\<close> of \<^verbatim>\<open>_function\<close>: the label, then \<^verbatim>\<open>range(i)\<close> pushes of zero.\<close>

definition function_cmds :: "translator \<Rightarrow> error + string list list" where
  "function_cmds t =
     (case line t of
        _ # func_name # n # _ \<Rightarrow>
          (case py_int n of
             Inl e \<Rightarrow> Inl e
           | Inr i \<Rightarrow> Inr ([''label'', func_name] # replicate (nat i) [''push'', ''constant'', ''0'']))
      | _ \<Rightarrow> Inl IndexError)"

definition return_label :: "int \<Rightarrow> string" where
  "return_label return_idx = ''RETURN_'' @ str_int return_idx"

text \<open>\<^verbatim>\<open>cmd_lst\<close> of \<^verbatim>\<open>_call\<close>.\<close>

definition call_cmds :: "translator \<Rightarrow> error + string list list" where
  "call_cmds t =
     (case line t of
        _ # func_name # num_args # _ \<Rightarrow>
          (let return_idx = idx t + 1 in
           Inr ([[''push'', ''constant'', return_label return_idx]]
                @ map (\<lambda>i. [''push'', ''pointer'', str_int i]) [-2, -1, 0, 1]
                @ [[''push'', ''pointer'', ''-3''],
                   [''push'', ''constant'', ''5''],
                   [''sub''],
                   [''push'', ''constant'', num_args],
                   [''sub''],
                   [''pop'', ''pointer'', ''-1'']]
                @ [[''push'', ''pointer'', ''-3''],
                   [''pop'', ''pointer'', ''-2'']]
                @ [[''goto'', func_name]]
                @ [[''label'', return_label return_idx]]))
      | _ \<Rightarrow> Inl IndexError)"

definition sp_addr :: int where
  "sp_addr = 14"

definition ret_addr :: int where
  "ret_addr = 15"

text \<open>\<^verbatim>\<open>cmd_lst\<close> of \<^verbatim>\<open>_return\<close>.\<close>

definition return_cmds :: "string list list" where
  "return_cmds =
     [[''push'', ''local'', ''-5''],
      [''pop'', ''pointer'', str_int (ret_addr - 3)]]
     @ [[''pop'', ''argument'', ''0'']]
     @ [[''push'', ''pointer'', ''-1''],
        [''push'', ''constant'', ''1''],
        [''add''],
        [''pop'', ''pointer'', str_int (sp_addr - 3)]]
     @ [[''push'', ''local'', ''-1''],
        [''pop'', ''pointer'', ''1'']]
     @ [[''push'', ''local'', ''-2''],
        [''pop'', ''pointer'', ''0'']]
     @ [[''push'', ''local'', ''-3''],
        [''pop'', ''pointer'', ''-1'']]
     @ [[''push'', ''local'', ''-4''],
        [''pop'', ''pointer'', ''-2'']]
     @ [[''push'', ''pointer'', str_int (sp_addr - 3)],
        [''pop'', ''pointer'', ''-3'']]"

subsection \<open>Dispatch\<close>

text \<open>
  A call either returns a value or raises, and the class variables keep what was
  written before the exception. \<open>None\<close> stands for a call that does not return: the
  recursion between \<^verbatim>\<open>translate\<close> and the expanding methods is bounded by a counter, and
  \<open>None\<close> is the answer when the counter runs out.
\<close>

type_synonym 'a outcome = "((error + 'a) \<times> cls) option"

text \<open>
  The loop \<^verbatim>\<open>for line in cmd_lst: Translator(line_lst=line).translate()\<close>, with
  \<^verbatim>\<open>translate\<close> as a parameter; the first exception ends it.
\<close>

fun run_lines :: "(translator \<Rightarrow> cls \<Rightarrow> unit outcome) \<Rightarrow> string list list \<Rightarrow> cls \<Rightarrow> unit outcome" where
  "run_lines tr [] s = Some (Inr (), s)"
| "run_lines tr (l # ls) s =
     (case Translator l [] 0 of
        Inl e \<Rightarrow> Some (Inl e, s)
      | Inr t \<Rightarrow>
          (case tr t s of
             None \<Rightarrow> None
           | Some (Inl e, s') \<Rightarrow> Some (Inl e, s')
           | Some (Inr _, s') \<Rightarrow> run_lines tr ls s'))"

definition function_vm :: "(translator \<Rightarrow> cls \<Rightarrow> unit outcome) \<Rightarrow> translator \<Rightarrow> cls \<Rightarrow> string outcome" where
  "function_vm tr t s =
     (case function_cmds t of
        Inl e \<Rightarrow> Some (Inl e, s)
      | Inr cmd_lst \<Rightarrow>
          (case run_lines tr cmd_lst s of
             None \<Rightarrow> None
           | Some (Inl e, s') \<Rightarrow> Some (Inl e, s')
           | Some (Inr _, s') \<Rightarrow> Some (Inr [], s')))"

definition call_vm :: "(translator \<Rightarrow> cls \<Rightarrow> unit outcome) \<Rightarrow> translator \<Rightarrow> cls \<Rightarrow> string outcome" where
  "call_vm tr t s =
     (case call_cmds t of
        Inl e \<Rightarrow> Some (Inl e, s)
      | Inr cmd_lst \<Rightarrow>
          (case run_lines tr cmd_lst s of
             None \<Rightarrow> None
           | Some (Inl e, s') \<Rightarrow> Some (Inl e, s')
           | Some (Inr _, s') \<Rightarrow> Some (Inr [], s')))"

definition return_vm :: "(translator \<Rightarrow> cls \<Rightarrow> unit outcome) \<Rightarrow> translator \<Rightarrow> string \<Rightarrow> cls \<Rightarrow> string outcome" where
  "return_vm tr t raw_code s =
     (case run_lines tr return_cmds s of
        None \<Rightarrow> None
      | Some (Inl e, s') \<Rightarrow> Some (Inl e, s')
      | Some (Inr _, s') \<Rightarrow> Some (newline (format raw_code [''var_1'' \<mapsto> PInt ret_addr]), s'))"

text \<open>The name of the pattern \<^verbatim>\<open>translate\<close> loads for a command.\<close>

definition pattern_name_of :: "translator \<Rightarrow> handler \<Rightarrow> error + string" where
  "pattern_name_of t op_func =
     (if cmd t \<in> {''pop'', ''push''} then
        (case line t of
           _ # seg # _ \<Rightarrow>
             Inr (if seg \<notin> {''local'', ''argument'', ''this'', ''that''}
                  then ''_'' @ cmd t @ '' '' @ seg
                  else ''_'' @ cmd t @ '' loc'')
         | _ \<Rightarrow> Inl IndexError)
      else if cmd t \<in> {''label'', ''goto'', ''if-goto''} then Inr (''_'' @ cmd t)
      else Inr (handler_name op_func))"

text \<open>\<^verbatim>\<open>op_func(self, raw_code)\<close>.\<close>

definition apply_handler ::
  "(translator \<Rightarrow> cls \<Rightarrow> unit outcome) \<Rightarrow> handler \<Rightarrow> translator \<Rightarrow> string \<Rightarrow> cls \<Rightarrow> string outcome" where
  "apply_handler tr op_func t raw_code s =
     (case op_func of
        H_pop_push \<Rightarrow> Some (pop_push t raw_code, s)
      | H_add_sub_or_and \<Rightarrow> Some (add_sub_or_and t raw_code, s)
      | H_neg_not \<Rightarrow> Some (neg_not t raw_code, s)
      | H_lt_eq_gt \<Rightarrow> Some (lt_eq_gt t raw_code s)
      | H_label_goto_if_goto \<Rightarrow> Some (label_goto_if_goto t raw_code, s)
      | H_function \<Rightarrow> function_vm tr t s
      | H_call \<Rightarrow> call_vm tr t s
      | H_return \<Rightarrow> return_vm tr t raw_code s
      | Other_attr a \<Rightarrow> Some (Inl Unmodelled, s))"

text \<open>
  The body of \<^verbatim>\<open>translate\<close> after the comment: look the method up, name the pattern,
  prepare the substitutes of a push or pop, load the pattern, call the method and append
  what it returns.
\<close>

definition is_other :: "handler \<Rightarrow> bool" where
  "is_other h = (case h of Other_attr a \<Rightarrow> True | _ \<Rightarrow> False)"

definition translate_body ::
  "(translator \<Rightarrow> cls \<Rightarrow> unit outcome) \<Rightarrow> translator \<Rightarrow> cls \<Rightarrow> unit outcome" where
  "translate_body tr t s =
     (case func_mappings s (cmd t) of
        None \<Rightarrow> Some (Inl KeyError, s)
      | Some op_func \<Rightarrow>
          if is_other op_func then Some (Inl Unmodelled, s)
          else
            (case pattern_name_of t op_func of
               Inl e \<Rightarrow> Some (Inl e, s)
             | Inr pattern_name \<Rightarrow>
                 (case (if cmd t \<in> {''pop'', ''push''} then pop_push_helper t else Inr t) of
                    Inl e \<Rightarrow> Some (Inl e, s)
                  | Inr t' \<Rightarrow>
                      (case code_patterns s pattern_name of
                         None \<Rightarrow> Some (Inl KeyError, s)
                       | Some raw_code \<Rightarrow>
                           (case apply_handler tr op_func t' raw_code s of
                              None \<Rightarrow> None
                            | Some (Inl e, s') \<Rightarrow> Some (Inl e, s')
                            | Some (Inr code, s') \<Rightarrow>
                                Some (Inr (), s' \<lparr> asm_code := asm_code s' @ code \<rparr>))))))"

text \<open>
  \<^verbatim>\<open>translate\<close>. The first argument bounds the depth of the calls of \<^verbatim>\<open>translate\<close>
  that are open at one time.
\<close>

fun translate :: "nat \<Rightarrow> translator \<Rightarrow> cls \<Rightarrow> unit outcome" where
  "translate 0 t s = None"
| "translate (Suc n) t s =
     translate_body (translate n) t (if cmd t \<noteq> ''label'' then make_comm t s else s)"

section \<open>Parsing and the driver\<close>

text \<open>\<^verbatim>\<open>Parser\<close>: a line is cut at its first slash and split at whitespace.\<close>

definition remove_comm :: "string \<Rightarrow> string" where
  "remove_comm l = (if CHR ''/'' \<in> set l then takeWhile (\<lambda>c. c \<noteq> CHR ''/'') l else l)"

definition parse :: "string \<Rightarrow> string list" where
  "parse l = py_split (remove_comm l)"

text \<open>
  \<^verbatim>\<open>vm_parser\<close> on the lines of the VM files, in the order they are read: empty lines
  are dropped and a \<^verbatim>\<open>function Sys.init\<close> sets the flag.
\<close>

fun vm_parser :: "string list \<Rightarrow> string list list \<times> bool \<Rightarrow> error + string list list \<times> bool" where
  "vm_parser [] acc = Inr acc"
| "vm_parser (l # ls) (parsed_vm, has_init) =
     (case parse l of
        [] \<Rightarrow> vm_parser ls (parsed_vm, has_init)
      | c # rest \<Rightarrow>
          if c = ''function'' then
            (case rest of
               [] \<Rightarrow> Inl IndexError
             | f # _ \<Rightarrow> vm_parser ls (parsed_vm @ [c # rest], has_init \<or> f = ''Sys.init''))
          else vm_parser ls (parsed_vm @ [c # rest], has_init))"

text \<open>\<^verbatim>\<open>enumerate(xs)\<close>: every element with its index, from zero.\<close>

definition enumerate_py :: "'a list \<Rightarrow> (int \<times> 'a) list" where
  "enumerate_py xs = zip (map int [0..<length xs]) xs"

text \<open>
  The loop of \<^verbatim>\<open>main\<close> over \<^verbatim>\<open>enumerate(parsed_vm)\<close>: every line is translated by
  an instance that knows the index of the line and \<open>curr_class\<close>, the prefix of the last
  function name seen.
\<close>

fun main_loop :: "nat \<Rightarrow> string \<Rightarrow> (int \<times> string list) list \<Rightarrow> cls \<Rightarrow> unit outcome" where
  "main_loop n curr_class [] s = Some (Inr (), s)"
| "main_loop n curr_class ((i, l) # ls) s =
     (case l of
        [] \<Rightarrow> Some (Inl IndexError, s)
      | c # rest \<Rightarrow>
          (case (if c = ''function'' then
                   (case rest of
                      [] \<Rightarrow> Inl IndexError
                    | f # _ \<Rightarrow> Inr (case py_split_sep CHR ''.'' f of [] \<Rightarrow> [] | p # _ \<Rightarrow> p))
                 else Inr curr_class) of
             Inl e \<Rightarrow> Some (Inl e, s)
           | Inr cc \<Rightarrow>
               (case Translator l cc i of
                  Inl e \<Rightarrow> Some (Inl e, s)
                | Inr t \<Rightarrow>
                    (case translate n t s of
                       None \<Rightarrow> None
                     | Some (Inl e, s') \<Rightarrow> Some (Inl e, s')
                     | Some (Inr _, s') \<Rightarrow> main_loop n cc ls s'))))"

text \<open>\<^verbatim>\<open>main\<close> from the parsed program on: the jump to \<^verbatim>\<open>Sys.init\<close> and the loop.\<close>

definition main_translate :: "nat \<Rightarrow> string list list \<times> bool \<Rightarrow> cls \<Rightarrow> unit outcome" where
  "main_translate n p s =
     (case p of (parsed_vm, has_init) \<Rightarrow>
        if has_init then main_loop n ''Sys'' (enumerate_py ([''goto'', ''Sys.init''] # parsed_vm)) s
        else main_loop n [] (enumerate_py parsed_vm) s)"

section \<open>Loading the patterns\<close>

text \<open>
  \<^verbatim>\<open>os.path.splitext(filename)[0]\<close> for a name without a directory part: the name up to
  its last dot, unless only dots stand before that dot.
\<close>

definition splitext_root :: "string \<Rightarrow> string" where
  "splitext_root fn =
     (if CHR ''.'' \<notin> set fn then fn
      else (let root = rev (drop 1 (dropWhile (\<lambda>c. c \<noteq> CHR ''.'') (rev fn)))
            in if list_all (\<lambda>c. c = CHR ''.'') root then fn else root))"

text \<open>
  The pattern code of a file, given as the lines the file yields: lines that start with a
  slash, a newline or a space are dropped, and spaces are removed from the others.
\<close>

fun read_pattern :: "string list \<Rightarrow> string \<Rightarrow> error + string" where
  "read_pattern [] pattern_code = Inr pattern_code"
| "read_pattern (l # ls) pattern_code =
     (case l of
        [] \<Rightarrow> Inl IndexError
      | c # _ \<Rightarrow>
          if c \<notin> {CHR ''/'', CHR 0x0A, CHR '' ''}
          then read_pattern ls (pattern_code @ filter (\<lambda>x. x \<noteq> CHR '' '') l)
          else read_pattern ls pattern_code)"

text \<open>
  \<^verbatim>\<open>getattr(cls, func_name)\<close>. The attributes of the class other than the translating
  methods (its class variables, its remaining methods and what it inherits) are given by
  the predicate \<open>other\<close>; any other name raises \<^verbatim>\<open>AttributeError\<close>.
\<close>

definition getattr_cls :: "(string \<Rightarrow> bool) \<Rightarrow> string \<Rightarrow> error + handler" where
  "getattr_cls other name =
     (if name = ''_pop_push'' then Inr H_pop_push
      else if name = ''_add_sub_or_and'' then Inr H_add_sub_or_and
      else if name = ''_neg_not'' then Inr H_neg_not
      else if name = ''_lt_eq_gt'' then Inr H_lt_eq_gt
      else if name = ''_label_goto_if_goto'' then Inr H_label_goto_if_goto
      else if name = ''_function'' then Inr H_function
      else if name = ''_call'' then Inr H_call
      else if name = ''_return'' then Inr H_return
      else if other name then Inr (Other_attr name)
      else Inl AttributeError)"

text \<open>The method and the commands a pattern name stands for.\<close>

definition commands_of :: "string \<Rightarrow> error + string \<times> string list" where
  "commands_of pattern_name =
     (if contains ''pop'' pattern_name \<or> contains ''push'' pattern_name then
        (case py_split pattern_name of
           [] \<Rightarrow> Inl IndexError
         | w # _ \<Rightarrow> Inr (''_pop_push'', [drop 1 w]))
      else if contains ''label'' pattern_name \<or> contains ''goto'' pattern_name
              \<or> contains ''if-goto'' pattern_name then
        Inr (''_label_goto_if_goto'', [drop 1 pattern_name])
      else Inr (pattern_name, filter (\<lambda>c. c \<noteq> []) (py_split_sep CHR ''_'' pattern_name)))"

text \<open>
  \<^verbatim>\<open>create_mappings\<close> on the directory listing, each file with its lines. Nothing is
  checked: a later file overwrites the entries of an earlier one, and no command is
  required to be present.
\<close>

fun create_mappings :: "(string \<Rightarrow> bool) \<Rightarrow> (string \<times> string list) list \<Rightarrow> cls \<Rightarrow> (error + unit) \<times> cls" where
  "create_mappings other [] s = (Inr (), s)"
| "create_mappings other ((filename, file) # fs) s =
     (if endswith filename ''.txt'' then
        (case read_pattern file [] of
           Inl e \<Rightarrow> (Inl e, s)
         | Inr pattern_code \<Rightarrow>
             (let pattern_name = splitext_root filename;
                  s1 = s \<lparr> code_patterns := (code_patterns s)(pattern_name \<mapsto> pattern_code) \<rparr>
              in case commands_of pattern_name of
                   Inl e \<Rightarrow> (Inl e, s1)
                 | Inr (func_name, cmd_lst) \<Rightarrow>
                     (case cmd_lst of
                        [] \<Rightarrow> create_mappings other fs s1
                      | _ \<Rightarrow>
                          (case getattr_cls other func_name of
                             Inl e \<Rightarrow> (Inl e, s1)
                           | Inr h \<Rightarrow>
                               create_mappings other fs
                                 (s1 \<lparr> func_mappings :=
                                         fold (\<lambda>command fm. fm(command \<mapsto> h)) cmd_lst
                                           (func_mappings s1) \<rparr>)))))
      else create_mappings other fs s)"

subsection \<open>A pattern directory for the examples\<close>

text \<open>
  Modelled from the spec: the directory \<^verbatim>\<open>patterns\<close> with the pattern files is not part
  of the source, so the examples below load this listing, written after the addressing
  rules of the spec and the register numbers the source uses (segment bases 1 to 4, the
  pointer segment at address 3, the scratch cells 14 and 15).
\<close>

definition a_instr :: "string \<Rightarrow> string" where
  "a_instr x = CHR 0x40 # x"

definition file_lines :: "string list \<Rightarrow> string list" where
  "file_lines ls = map (\<lambda>l. l @ [CHR 0x0A]) ls"

definition cmp_pattern :: "string list" where
  "cmp_pattern = [''@SP'', ''AM=M-1'', ''D=M'', ''A=A-1'', ''D=D-M'', ''M=-1'', a_instr ''{var_1}_{var_3}'', ''D;{var_2}'', ''@SP'', ''A=M-1'', ''M=0'', ''({var_1}_{var_3})'']"

definition example_patterns :: "(string \<times> string list) list" where
  "example_patterns =
     [(''_push constant.txt'', file_lines [''// push a literal'', a_instr ''{var_1}'', ''D = A'', ''@SP'', ''M = M+1'', ''A = M-1'', ''M = D'']),
      (''_push loc.txt'', file_lines [a_instr ''{var_1}'', ''D=M'', a_instr ''{var_2}'', ''A=D{var_3}A'', ''D=M'', ''@SP'', ''M=M+1'', ''A=M-1'', ''M=D'']),
      (''_pop loc.txt'', file_lines [a_instr ''{var_1}'', ''D=M'', a_instr ''{var_2}'', ''D=D{var_3}A'', ''@R13'', ''M=D'', ''@SP'', ''AM=M-1'', ''D=M'', ''@R13'', ''A=M'', ''M=D'']),
      (''_push pointer.txt'', file_lines [''@3'', ''D=A'', a_instr ''{var_1}'', ''A=D{var_2}A'', ''D=M'', ''@SP'', ''M=M+1'', ''A=M-1'', ''M=D'']),
      (''_pop pointer.txt'', file_lines [''@3'', ''D=A'', a_instr ''{var_1}'', ''D=D{var_2}A'', ''@R13'', ''M=D'', ''@SP'', ''AM=M-1'', ''D=M'', ''@R13'', ''A=M'', ''M=D'']),
      (''_push temp.txt'', file_lines [''@5'', ''D=A'', a_instr ''{var_1}'', ''A=D+A'', ''D=M'', ''@SP'', ''M=M+1'', ''A=M-1'', ''M=D'']),
      (''_pop temp.txt'', file_lines [''@5'', ''D=A'', a_instr ''{var_1}'', ''D=D+A'', ''@R13'', ''M=D'', ''@SP'', ''AM=M-1'', ''D=M'', ''@R13'', ''A=M'', ''M=D'']),
      (''_push static.txt'', file_lines [a_instr ''{var_1}.{var_2}'', ''D=M'', ''@SP'', ''M=M+1'', ''A=M-1'', ''M=D'']),
      (''_pop static.txt'', file_lines [''@SP'', ''AM=M-1'', ''D=M'', a_instr ''{var_1}.{var_2}'', ''M=D'']),
      (''_add_sub_or_and.txt'', file_lines [''@SP'', ''AM=M-1'', ''D=M'', ''A=A-1'', ''M=M{var_1}D'']),
      (''_neg_not.txt'', file_lines [''@SP'', ''A=M-1'', ''M={var_1}M'']),
      (''_lt_eq_gt.txt'', file_lines cmp_pattern),
      (''_label.txt'', file_lines [''({var_1})'']),
      (''_goto.txt'', file_lines [a_instr ''{var_1}'', ''0;JMP'']),
      (''_if-goto.txt'', file_lines [''@SP'', ''AM=M-1'', ''D=M'', a_instr ''{var_1}'', ''D;JNE'']),
      (''_function.txt'', []),
      (''_call.txt'', []),
      (''_return.txt'', file_lines [a_instr ''{var_1}'', ''A=M'', ''0;JMP'']),
      (''README.md'', file_lines [''patterns''])]"

definition example_cls :: cls where
  "example_cls = snd (create_mappings (\<lambda>_. False) example_patterns init_cls)"

section \<open>Notions the properties are stated with\<close>

text \<open>The comment line \<^verbatim>\<open>translate\<close> writes before it dispatches (none for a label).\<close>

definition comment_of :: "translator \<Rightarrow> string" where
  "comment_of t = (if cmd t \<noteq> ''label'' then ''// '' @ join '' '' (line t) @ [CHR 0x0A] else [])"

text \<open>The lines of an assembly text that declare a label, for reading the examples.\<close>

definition label_lines :: "string \<Rightarrow> string list" where
  "label_lines out = filter (\<lambda>l. take 1 l = ''('') (py_split_sep (CHR 0x0A) out)"

text \<open>
  Modelled from the spec: the pattern files that place the \<^verbatim>\<open>pointer\<close> segment are
  missing. The segment is a fixed-base direct offset; its base is 3, the number the
  source subtracts from the scratch addresses 14 and 15 to reach them through
  \<^verbatim>\<open>pointer\<close>, so that offsets \<open>-2\<close> to \<open>1\<close> are the cells of \<open>loc_dict\<close>.
\<close>

definition pointer_base :: int where
  "pointer_base = 3"

definition pointer_cell :: "string \<Rightarrow> error + int" where
  "pointer_cell tok = (case py_int tok of Inl e \<Rightarrow> Inl e | Inr v \<Rightarrow> Inr (pointer_base + v))"

text \<open>A text without braces, which \<^verbatim>\<open>format\<close> copies.\<close>

definition brace_free :: "string \<Rightarrow> bool" where
  "brace_free x = (CHR ''{'' \<notin> set x \<and> CHR ''}'' \<notin> set x)"

text \<open>
  What loading guarantees of \<^verbatim>\<open>_func_mappings\<close>: an expanding method is bound to its own
  command only.
\<close>

definition expanding :: "handler \<Rightarrow> bool" where
  "expanding h = (h = H_function \<or> h = H_call \<or> h = H_return)"

definition own_command :: "(string \<rightharpoonup> handler) \<Rightarrow> bool" where
  "own_command fm =
     (\<forall>c h. fm c = Some h \<longrightarrow> expanding h \<longrightarrow> c = drop 1 (handler_name h))"

text \<open>The commands the expanding methods synthesize.\<close>

definition base_commands :: "string set" where
  "base_commands = {''label'', ''push'', ''pop'', ''goto'', ''add'', ''sub''}"

text \<open>The tables are ready for the comparison commands, with \<open>raw\<close> as their pattern.\<close>

definition cmp_ready :: "cls \<Rightarrow> string \<Rightarrow> bool" where
  "cmp_ready s raw =
     (func_mappings s ''lt'' = Some H_lt_eq_gt \<and> func_mappings s ''eq'' = Some H_lt_eq_gt
      \<and> func_mappings s ''gt'' = Some H_lt_eq_gt \<and> code_patterns s ''_lt_eq_gt'' = Some raw)"

text \<open>
  A pattern as a sequence of literal texts and placeholders, and the string it stands
  for.
\<close>

datatype piece = Text string | Var string

fun piece_text :: "piece \<Rightarrow> string" where
  "piece_text (Text x) = x"
| "piece_text (Var v) = ''{'' @ v @ ''}''"

definition template_text :: "piece list \<Rightarrow> string" where
  "template_text ps = concat (map piece_text ps)"

text \<open>A name that can stand between braces as a plain replacement field.\<close>

definition plain_name :: "string \<Rightarrow> bool" where
  "plain_name v =
     (v \<noteq> [] \<and> \<not> is_digit (hd v) \<and> list_all (\<lambda>c. plain_field_char c \<and> c \<noteq> CHR ''}'') v)"

text \<open>The pieces are well formed for the keywords \<open>kw\<close>.\<close>

fun piece_ok :: "(string \<rightharpoonup> pyval) \<Rightarrow> piece \<Rightarrow> bool" where
  "piece_ok kw (Text x) = brace_free x"
| "piece_ok kw (Var v) = (plain_name v \<and> kw v \<noteq> None)"

fun fill :: "(string \<rightharpoonup> pyval) \<Rightarrow> piece \<Rightarrow> string" where
  "fill kw (Text x) = x"
| "fill kw (Var v) = (case kw v of None \<Rightarrow> [] | Some val \<Rightarrow> py_str val)"

text \<open>A line whose command is one of the base commands.\<close>

definition base_line :: "string list \<Rightarrow> bool" where
  "base_line l = (\<exists>c r. l = c # r \<and> c \<in> base_commands)"

text \<open>
  The texts that the instructions of a list append to the output, one per instruction
  that is run, when the loop of an expanding method hands them to \<open>tr\<close>.
\<close>

fun blocks_of :: "(translator \<Rightarrow> cls \<Rightarrow> unit outcome) \<Rightarrow> string list list \<Rightarrow> cls \<Rightarrow> string list" where
  "blocks_of tr [] s = []"
| "blocks_of tr (l # ls) s =
     (case Translator l [] 0 of
        Inl e \<Rightarrow> []
      | Inr t \<Rightarrow>
          (case tr t s of
             None \<Rightarrow> []
           | Some (r, s') \<Rightarrow>
               drop (length (asm_code s)) (asm_code s')
               # (case r of Inl e \<Rightarrow> [] | Inr u \<Rightarrow> blocks_of tr ls s')))"

text \<open>A translating function that only ever extends the output.\<close>

definition appends :: "(translator \<Rightarrow> cls \<Rightarrow> unit outcome) \<Rightarrow> bool" where
  "appends tr = (\<forall>t s r s'. tr t s = Some (r, s') \<longrightarrow> (\<exists>b. asm_code s' = asm_code s @ b))"

text \<open>
  The cell a \<^verbatim>\<open>pop pointer\<close> writes, the cell a \<^verbatim>\<open>push pointer\<close> reads, and the base cell
  through which a push on local, argument, this or that reads memory.
\<close>

definition written_cell :: "string list \<Rightarrow> int option" where
  "written_cell l =
     (case l of
        [c, seg, tok] \<Rightarrow>
          if c = ''pop'' \<and> seg = ''pointer''
          then (case pointer_cell tok of Inl e \<Rightarrow> None | Inr a \<Rightarrow> Some a) else None
      | _ \<Rightarrow> None)"

definition read_cell :: "string list \<Rightarrow> int option" where
  "read_cell l =
     (case l of
        [c, seg, tok] \<Rightarrow>
          if c = ''push'' \<and> seg = ''pointer''
          then (case pointer_cell tok of Inl e \<Rightarrow> None | Inr a \<Rightarrow> Some a) else None
      | _ \<Rightarrow> None)"

definition reads_through :: "string list \<Rightarrow> int option" where
  "reads_through l =
     (case l of
        [c, seg, tok] \<Rightarrow> if c = ''push'' then loc_dict seg else None
      | _ \<Rightarrow> None)"

text \<open>The positions of a list of instructions at which a property holds.\<close>

definition positions :: "(string list \<Rightarrow> bool) \<Rightarrow> string list list \<Rightarrow> nat list" where
  "positions P cmds = filter (\<lambda>i. P (cmds ! i)) [0..<length cmds]"

text \<open>The number of lines of a program whose command is \<open>c\<close>.\<close>

definition occurrences :: "string \<Rightarrow> string list list \<Rightarrow> int" where
  "occurrences c prog = int (length (filter (\<lambda>l. take 1 l = [c]) prog))"

text \<open>The instruction stream the driver translates: the program, after the jump to
  \<^verbatim>\<open>Sys.init\<close> when the flag is set.\<close>

definition stream_of :: "string list list \<times> bool \<Rightarrow> string list list" where
  "stream_of p = (case p of (parsed_vm, has_init) \<Rightarrow>
     if has_init then [''goto'', ''Sys.init''] # parsed_vm else parsed_vm)"

text \<open>A piece that is brace-free text or one of the given placeholders.\<close>

definition uses_only :: "string set \<Rightarrow> piece \<Rightarrow> bool" where
  "uses_only vs p = (case p of Text x \<Rightarrow> brace_free x | Var v \<Rightarrow> v \<in> vs)"

text \<open>The tables are ready for calls: \<^verbatim>\<open>call\<close> and \<^verbatim>\<open>label\<close> have their methods, and the
  label pattern is made of the pieces \<open>lp\<close>.\<close>

definition call_ready :: "cls \<Rightarrow> piece list \<Rightarrow> bool" where
  "call_ready s lp =
     (func_mappings s ''call'' = Some H_call
      \<and> func_mappings s ''label'' = Some H_label_goto_if_goto
      \<and> code_patterns s ''_label'' = Some (template_text lp)
      \<and> list_all (uses_only {''var_1''}) lp)"

text \<open>The declaration of a label as the label pattern renders it.\<close>

definition render_label :: "piece list \<Rightarrow> string \<Rightarrow> string" where
  "render_label lp lbl = concat (map (fill [''var_1'' \<mapsto> PStr lbl]) lp) @ [CHR 0x0A]"

section \<open>General facts about the model\<close>

lemma run_lines_tables:
  assumes tr: "\<And>t s r s'. tr t s = Some (r, s') \<Longrightarrow> code_patterns s' = code_patterns s \<and> func_mappings s' = func_mappings s"
  shows "run_lines tr ls s = Some (r, s') \<Longrightarrow> code_patterns s' = code_patterns s \<and> func_mappings s' = func_mappings s"
proof (induction ls arbitrary: s)
  case Nil
  then show ?case by simp
next
  case (Cons l ls)
  show ?case
  proof (cases "Translator l [] 0")
    case (Inl e)
    with Cons.prems show ?thesis by simp
  next
    case (Inr t)
    show ?thesis
    proof (cases "tr t s")
      case None
      with Cons.prems Inr show ?thesis by simp
    next
      case (Some p)
      obtain r1 s1 where p: "p = (r1, s1)" by (cases p)
      have keep: "code_patterns s1 = code_patterns s \<and> func_mappings s1 = func_mappings s"
        using tr Some p by blast
      show ?thesis
      proof (cases r1)
        case (Inl e)
        with Cons.prems Inr Some p keep show ?thesis by simp
      next
        case (Inr u)
        with Cons.prems \<open>Translator l [] 0 = Inr t\<close> Some p
        have "run_lines tr ls s1 = Some (r, s')" by simp
        from Cons.IH [OF this] keep show ?thesis by simp
      qed
    qed
  qed
qed

lemma lt_eq_gt_tables:
  "lt_eq_gt t raw s = (r, s') \<Longrightarrow> code_patterns s' = code_patterns s \<and> func_mappings s' = func_mappings s \<and> asm_code s' = asm_code s"
  by (auto simp: lt_eq_gt_def Let_def split: option.splits)

lemma apply_handler_tables:
  assumes tr: "\<And>t s r s'. tr t s = Some (r, s') \<Longrightarrow> code_patterns s' = code_patterns s \<and> func_mappings s' = func_mappings s"
  shows "apply_handler tr h t raw s = Some (r, s') \<Longrightarrow> code_patterns s' = code_patterns s \<and> func_mappings s' = func_mappings s"
  using run_lines_tables [of tr, OF tr]
  by (cases h) (auto simp: apply_handler_def function_vm_def call_vm_def return_vm_def
      dest!: lt_eq_gt_tables split: sum.splits option.splits prod.splits)

lemma translate_body_cases:
  assumes "translate_body tr t s = Some (r, s')"
  shows "s' = s \<or> (\<exists>h t' raw r1 s1. func_mappings s (cmd t) = Some h \<and>
            apply_handler tr h t' raw s = Some (r1, s1) \<and>
            (case r1 of Inl e \<Rightarrow> r = Inl e \<and> s' = s1
                      | Inr code \<Rightarrow> r = Inr () \<and> s' = s1 \<lparr> asm_code := asm_code s1 @ code \<rparr>))"
proof (cases "func_mappings s (cmd t)")
  case None
  with assms show ?thesis by (simp add: translate_body_def)
next
  case (Some h)
  show ?thesis
  proof (cases "is_other h")
    case True
    with assms Some show ?thesis by (simp add: translate_body_def)
  next
    case False
    show ?thesis
    proof (cases "pattern_name_of t h")
      case (Inl e)
      with assms Some False show ?thesis by (simp add: translate_body_def)
    next
      case pn: (Inr pattern_name)
      show ?thesis
      proof (cases "if cmd t \<in> {''pop'', ''push''} then pop_push_helper t else Inr t")
        case (Inl e)
        with assms Some False pn show ?thesis by (simp add: translate_body_def)
      next
        case t': (Inr t')
        show ?thesis
        proof (cases "code_patterns s pattern_name")
          case None
          with assms Some False pn t' show ?thesis by (simp add: translate_body_def)
        next
          case raw: (Some raw)
          show ?thesis
          proof (cases "apply_handler tr h t' raw s")
            case None
            with assms Some False pn t' raw show ?thesis by (simp add: translate_body_def)
          next
            case ah: (Some p)
            obtain r1 s1 where p: "p = (r1, s1)" by (cases p)
            have "case r1 of Inl e \<Rightarrow> r = Inl e \<and> s' = s1
                      | Inr code \<Rightarrow> r = Inr () \<and> s' = s1 \<lparr> asm_code := asm_code s1 @ code \<rparr>"
              using assms Some False pn t' raw ah p
              by (cases r1) (auto simp: translate_body_def)
            with Some ah p show ?thesis by blast
          qed
        qed
      qed
    qed
  qed
qed

lemma translate_body_tables:
  assumes tr: "\<And>t s r s'. tr t s = Some (r, s') \<Longrightarrow> code_patterns s' = code_patterns s \<and> func_mappings s' = func_mappings s"
      and b: "translate_body tr t s = Some (r, s')"
  shows "code_patterns s' = code_patterns s \<and> func_mappings s' = func_mappings s"
  using translate_body_cases [OF b] apply_handler_tables [of tr, OF tr]
  by (fastforce split: sum.splits)

lemma translate_tables:
  "translate n t s = Some (r, s') \<Longrightarrow> code_patterns s' = code_patterns s \<and> func_mappings s' = func_mappings s"
proof (induction n arbitrary: t s r s')
  case 0
  then show ?case by simp
next
  case (Suc n)
  have "translate_body (translate n) t (if cmd t \<noteq> ''label'' then make_comm t s else s) = Some (r, s')"
    using Suc.prems by simp
  from translate_body_tables [of "translate n", OF Suc.IH this]
  show ?case by (simp add: make_comm_def split: if_splits)
qed

lemma translate_body_dispatch:
  assumes "func_mappings s (cmd t) = Some h" "\<not> is_other h" "pattern_name_of t h = Inr pn"
    "(if cmd t \<in> {''pop'', ''push''} then pop_push_helper t else Inr t) = Inr t'"
    "code_patterns s pn = Some raw"
  shows "translate_body tr t s =
     (case apply_handler tr h t' raw s of
        None \<Rightarrow> None
      | Some (Inl e, s') \<Rightarrow> Some (Inl e, s')
      | Some (Inr code, s') \<Rightarrow> Some (Inr (), s' \<lparr> asm_code := asm_code s' @ code \<rparr>))"
  using assms by (simp add: translate_body_def)

lemma cmp_cases: "c \<in> {''lt'', ''eq'', ''gt''} \<Longrightarrow> c \<noteq> ''label'' \<and> c \<noteq> ''pop'' \<and> c \<noteq> ''push'' \<and> c \<noteq> ''goto'' \<and> c \<noteq> ''if-goto''"
  by auto

lemma translate_cmp:
  assumes c: "c \<in> {''lt'', ''eq'', ''gt''}" and t: "cmd t = c"
    and fm: "func_mappings s c = Some H_lt_eq_gt"
    and cp: "code_patterns s ''_lt_eq_gt'' = Some raw"
    and k: "lt_eq_gt_counter s c = Some k"
    and j: "jump_dict c = Some j"
  shows "translate (Suc n) t s =
     Some (case newline (format raw [''var_1'' \<mapsto> PStr (upper c), ''var_2'' \<mapsto> PStr j, ''var_3'' \<mapsto> PInt k]) of
             Inl e \<Rightarrow> (Inl e, (make_comm t s) \<lparr> lt_eq_gt_counter := (lt_eq_gt_counter s)(c \<mapsto> k + 1) \<rparr>)
           | Inr code \<Rightarrow> (Inr (), (make_comm t s) \<lparr> lt_eq_gt_counter := (lt_eq_gt_counter s)(c \<mapsto> k + 1),
                                  asm_code := asm_code (make_comm t s) @ code \<rparr>))"
proof -
  let ?s = "make_comm t s"
  have ne: "cmd t \<noteq> ''label''" "cmd t \<notin> {''pop'', ''push''}" "cmd t \<notin> {''label'', ''goto'', ''if-goto''}"
    using cmp_cases [OF c] t by auto
  have pn: "pattern_name_of t H_lt_eq_gt = Inr ''_lt_eq_gt''"
    using ne by (simp add: pattern_name_of_def)
  have fm': "func_mappings ?s (cmd t) = Some H_lt_eq_gt" and cp': "code_patterns ?s ''_lt_eq_gt'' = Some raw"
    and k': "lt_eq_gt_counter ?s = lt_eq_gt_counter s"
    using fm cp t by (simp_all add: make_comm_def)
  have "translate (Suc n) t s = translate_body (translate n) t ?s"
    using ne by simp
  also have "\<dots> = (case apply_handler (translate n) H_lt_eq_gt t raw ?s of
        None \<Rightarrow> None
      | Some (Inl e, s') \<Rightarrow> Some (Inl e, s')
      | Some (Inr code, s') \<Rightarrow> Some (Inr (), s' \<lparr> asm_code := asm_code s' @ code \<rparr>))"
    by (rule translate_body_dispatch [OF fm' _ pn _ cp']) (use ne in \<open>simp_all add: is_other_def\<close>)
  also have "apply_handler (translate n) H_lt_eq_gt t raw ?s = Some (lt_eq_gt t raw ?s)"
    by (simp add: apply_handler_def)
  also have "lt_eq_gt t raw ?s =
      (newline (format raw [''var_1'' \<mapsto> PStr (upper c), ''var_2'' \<mapsto> PStr j, ''var_3'' \<mapsto> PInt k]),
       ?s \<lparr> lt_eq_gt_counter := (lt_eq_gt_counter s)(c \<mapsto> k + 1) \<rparr>)"
    using k j t k' by (simp add: lt_eq_gt_def)
  finally show ?thesis
    by (simp split: sum.splits)
qed

lemma jump_dict_cmp: "c \<in> {''lt'', ''eq'', ''gt''} \<Longrightarrow> \<exists>j. jump_dict c = Some j"
  by (auto simp: jump_dict_def)

lemma create_mappings_keeps:
  "create_mappings other fs s = (r, s') \<Longrightarrow> asm_code s' = asm_code s \<and> lt_eq_gt_counter s' = lt_eq_gt_counter s"
proof (induction fs arbitrary: s)
  case Nil
  then show ?case by simp
next
  case (Cons f fs)
  obtain filename lns where f: "f = (filename, lns)" by (cases f)
  from Cons.prems f consider
      "s' = s"
    | pn pc where "s' = s \<lparr> code_patterns := (code_patterns s)(pn \<mapsto> pc) \<rparr>"
    | s1 where "create_mappings other fs s1 = (r, s')" "asm_code s1 = asm_code s" "lt_eq_gt_counter s1 = lt_eq_gt_counter s"
    by (auto simp: Let_def split: if_splits sum.splits prod.splits list.splits)
  then show ?case
  proof cases
    case 1
    then show ?thesis by simp
  next
    case 2
    then show ?thesis by simp
  next
    case 3
    with Cons.IH [OF 3(1)] show ?thesis by simp
  qed
qed

lemma example_cls_counter: "lt_eq_gt_counter example_cls = lt_eq_gt_counter init_cls"
  using create_mappings_keeps [of "\<lambda>_. False" example_patterns init_cls
      "fst (create_mappings (\<lambda>_. False) example_patterns init_cls)" example_cls]
  by (simp add: example_cls_def)

lemma outcome_the: "map_option fst x = Some r \<Longrightarrow> x = Some (r, snd (the x))"
  by (cases x) auto

lemma emit_emit: "emit a (emit b r) = emit (a @ b) r"
  by (cases r) (simp_all add: emit_def)

lemma emit_Inr: "emit a (Inr b) = Inr (a @ b)"
  by (simp add: emit_def)

lemma fmt_plain: "brace_free pre \<Longrightarrow> fmt kw None (pre @ rest) = emit pre (fmt kw None rest)"
proof (induction pre)
  case Nil
  show ?case by (cases "fmt kw None rest") (simp_all add: emit_def)
next
  case (Cons c pre)
  then have "c \<noteq> CHR ''{''" "c \<noteq> CHR ''}''" "brace_free pre"
    by (auto simp: brace_free_def)
  with Cons.IH show ?case by (simp add: emit_emit)
qed

lemma fmt_name:
  "list_all (\<lambda>c. plain_field_char c \<and> c \<noteq> CHR ''}'') v \<Longrightarrow>
   fmt kw (Some acc) (v @ CHR ''}'' # rest) = fmt kw (Some (rev v @ acc)) (CHR ''}'' # rest)"
  by (induction v arbitrary: acc) simp_all

lemma plain_name_last: "plain_name v \<Longrightarrow> rev v \<noteq> [] \<and> last (rev v) = hd v"
  by (cases v) (simp_all add: plain_name_def)

lemma fmt_field:
  assumes "plain_name v" "kw v = Some val"
  shows "fmt kw None (CHR ''{'' # v @ CHR ''}'' # rest) = emit (py_str val) (fmt kw None rest)"
proof -
  from assms(1) obtain d ds where v: "v = d # ds" and d: "d \<noteq> CHR ''{''"
    by (cases v) (auto simp: plain_name_def plain_field_char_def)
  have all: "list_all (\<lambda>c. plain_field_char c \<and> c \<noteq> CHR ''}'') v"
    using assms(1) by (simp add: plain_name_def)
  have "fmt kw None (CHR ''{'' # v @ CHR ''}'' # rest) = fmt kw (Some []) (v @ CHR ''}'' # rest)"
    using v d by simp
  also have "\<dots> = fmt kw (Some (rev v)) (CHR ''}'' # rest)"
    using fmt_name [OF all, of kw "[]" rest] by simp
  also have "\<dots> = emit (py_str val) (fmt kw None rest)"
    using assms plain_name_last [OF assms(1)] by (simp add: plain_name_def)
  finally show ?thesis .
qed

lemma format_template:
  "list_all (piece_ok kw) ps \<Longrightarrow> format (template_text ps) kw = Inr (concat (map (fill kw) ps))"
  unfolding format_def template_text_def
proof (induction ps)
  case Nil
  then show ?case by simp
next
  case (Cons p ps)
  then have IH: "fmt kw None (concat (map piece_text ps)) = Inr (concat (map (fill kw) ps))"
    by simp
  show ?case
  proof (cases p)
    case (Text x)
    with Cons.prems have "brace_free x" by simp
    from fmt_plain [OF this] IH Text show ?thesis by (simp add: emit_Inr)
  next
    case (Var v)
    with Cons.prems obtain val where pv: "plain_name v" and kv: "kw v = Some val" by auto
    from fmt_field [of v kw val, OF pv kv] IH Var kv show ?thesis by (simp add: emit_Inr)
  qed
qed

lemma plain_var: "plain_name ''var_1''" "plain_name ''var_2''" "plain_name ''var_3''"
  by (simp_all add: plain_name_def plain_field_char_def is_digit_def)

lemma str_int_small:
  "str_int (- 2) = ''-2''" "str_int (- 1) = ''-1''" "str_int 0 = ''0''" "str_int 1 = ''1''"
  "str_int 11 = ''11''" "str_int 12 = ''12''" "str_int 15 = ''15''"
  by code_simp+

lemma pointer_cells:
  "map pointer_cell [''-3'', ''-2'', ''-1'', ''0'', ''1'', ''11'', ''12''] = map Inr [0, 1, 2, 3, 4, 14, 15]"
  by code_simp



lemma fold_upd_own:
  assumes "own_command fm" "expanding h \<longrightarrow> set cl \<subseteq> {drop 1 (handler_name h)}"
  shows "own_command (fold (\<lambda>command fm. fm(command \<mapsto> h)) cl fm)"
  using assms
proof (induction cl arbitrary: fm)
  case Nil
  then show ?case by simp
next
  case (Cons c cl)
  have 1: "own_command (fm(c \<mapsto> h))"
    using Cons.prems unfolding own_command_def by auto
  have 2: "expanding h \<longrightarrow> set cl \<subseteq> {drop 1 (handler_name h)}"
    using Cons.prems(2) by auto
  from Cons.IH [OF 1 2] show ?case by simp
qed

lemma commands_call: "commands_of ''_call'' = Inr (''_call'', [''call''])"
  by code_simp

lemma commands_function: "commands_of ''_function'' = Inr (''_function'', [''function''])"
  by code_simp

lemma commands_return: "commands_of ''_return'' = Inr (''_return'', [''return''])"
  by code_simp

lemma getattr_expanding:
  assumes "getattr_cls other name = Inr h" "expanding h"
  shows "name = handler_name h"
  using assms by (auto simp: getattr_cls_def expanding_def split: if_splits)

lemma commands_own:
  assumes c: "commands_of pn = Inr (fname, cl)" and g: "getattr_cls other fname = Inr h" and e: "expanding h"
  shows "set cl \<subseteq> {drop 1 (handler_name h)}"
proof -
  have fn: "fname = handler_name h" using getattr_expanding [OF g e] .
  from e have hn: "handler_name h \<in> {''_function'', ''_call'', ''_return''}"
    by (auto simp: expanding_def)
  have ne: "fname \<noteq> ''_pop_push''" "fname \<noteq> ''_label_goto_if_goto''"
    using fn hn by auto
  from c ne have "pn = fname"
    by (auto simp: commands_of_def split: if_splits list.splits)
  with fn hn c commands_call commands_function commands_return show ?thesis
    by auto
qed

lemma create_mappings_own:
  "own_command (func_mappings s) \<Longrightarrow> create_mappings other fs s = (r, s') \<Longrightarrow> own_command (func_mappings s')"
proof (induction fs arbitrary: s)
  case Nil
  then show ?case by simp
next
  case (Cons f fs)
  obtain filename lns where f: "f = (filename, lns)" by (cases f)
  from Cons.prems(2) f consider
      "func_mappings s' = func_mappings s"
    | s1 where "create_mappings other fs s1 = (r, s')" "func_mappings s1 = func_mappings s"
    | s1 pn fname c cl h where "create_mappings other fs
           (s1 \<lparr> func_mappings := fold (\<lambda>command fm. fm(command \<mapsto> h)) (c # cl) (func_mappings s1) \<rparr>) = (r, s')"
        "func_mappings s1 = func_mappings s" "commands_of pn = Inr (fname, c # cl)" "getattr_cls other fname = Inr h"
    by (simp add: Let_def split: if_splits sum.splits prod.splits list.splits) fastforce+
  then show ?case
  proof cases
    case 1
    with Cons.prems show ?thesis by simp
  next
    case 2
    with Cons.IH [OF _ 2(1)] Cons.prems(1) show ?thesis by simp
  next
    case 3
    have "own_command (fold (\<lambda>command fm. fm(command \<mapsto> h)) (c # cl) (func_mappings s1))"
    proof (rule fold_upd_own)
      show "own_command (func_mappings s1)" using 3(2) Cons.prems(1) by simp
      show "expanding h \<longrightarrow> set (c # cl) \<subseteq> {drop 1 (handler_name h)}"
        using commands_own [OF 3(3) 3(4)] by blast
    qed
    with Cons.IH [OF _ 3(1)] show ?thesis by simp
  qed
qed

lemma init_own: "own_command (func_mappings init_cls)"
  by (simp add: own_command_def init_cls_def)

lemma function_cmds_base: "function_cmds t = Inr cmds \<Longrightarrow> \<forall>l\<in>set cmds. base_line l"
  by (auto simp: function_cmds_def base_line_def base_commands_def split: list.splits sum.splits)

lemma call_cmds_base: "call_cmds t = Inr cmds \<Longrightarrow> \<forall>l\<in>set cmds. base_line l"
  by (auto simp: call_cmds_def base_line_def base_commands_def Let_def split: list.splits)

lemma return_cmds_base: "\<forall>l\<in>set return_cmds. base_line l"
  by (simp add: return_cmds_def base_line_def base_commands_def)

lemma base_not_expanding:
  assumes "own_command fm" "c \<in> base_commands" "fm c = Some h"
  shows "\<not> expanding h"
proof
  assume e: "expanding h"
  with assms have "c = drop 1 (handler_name h)" by (auto simp: own_command_def)
  with e assms(2) show False by (auto simp: expanding_def base_commands_def)
qed

lemma apply_handler_simple:
  "\<not> expanding h \<Longrightarrow> \<exists>r. apply_handler tr h t raw s = Some r \<and> apply_handler tr' h t raw s = Some r"
  by (cases h) (simp_all add: apply_handler_def expanding_def)

lemma translate_body_cong:
  assumes "\<And>h t' raw. func_mappings s (cmd t) = Some h \<Longrightarrow> apply_handler tr h t' raw s = apply_handler tr' h t' raw s"
  shows "translate_body tr t s = translate_body tr' t s"
  using assms by (auto simp: translate_body_def split: option.splits sum.splits)

lemma translate_body_returns:
  assumes "\<And>h t' raw. func_mappings s (cmd t) = Some h \<Longrightarrow> apply_handler tr h t' raw s \<noteq> None"
  shows "translate_body tr t s \<noteq> None"
proof -
  have "(case apply_handler tr h t' raw s of
           None \<Rightarrow> None
         | Some (Inl e, s') \<Rightarrow> Some (Inl e, s')
         | Some (Inr code, s') \<Rightarrow> Some (Inr (), s' \<lparr> asm_code := asm_code s' @ code \<rparr>)) \<noteq> None"
    if "func_mappings s (cmd t) = Some h" for h t' raw
    using assms [OF that, of t' raw] by (auto split: option.splits sum.splits prod.splits)
  then show ?thesis
    by (simp add: translate_body_def split: option.splits sum.splits)
qed

lemma make_comm_tables [simp]:
  "func_mappings (make_comm t s) = func_mappings s" "code_patterns (make_comm t s) = code_patterns s"
  by (simp_all add: make_comm_def)

lemma translate_base:
  assumes own: "own_command (func_mappings s)" and c: "cmd t \<in> base_commands"
  shows "\<exists>r. translate (Suc n) t s = Some r \<and> translate (Suc m) t s = Some r"
proof -
  let ?s = "if cmd t \<noteq> ''label'' then make_comm t s else s"
  have fm: "func_mappings ?s = func_mappings s" by simp
  have simple: "\<exists>r. apply_handler tr h t' raw ?s = Some r \<and> apply_handler tr' h t' raw ?s = Some r"
    if "func_mappings ?s (cmd t) = Some h" for h t' raw tr tr'
    using base_not_expanding [OF own c] that fm apply_handler_simple by metis
  have eq: "translate_body (translate n) t ?s = translate_body (translate m) t ?s"
    by (rule translate_body_cong) (use simple in metis)
  have "translate_body (translate n) t ?s \<noteq> None"
    by (rule translate_body_returns) (use simple in \<open>metis option.distinct(1)\<close>)
  with eq show ?thesis by auto
qed

lemma run_lines_base:
  assumes "own_command (func_mappings s)" "\<forall>l\<in>set cmds. base_line l"
  shows "\<exists>r. run_lines (translate (Suc n)) cmds s = Some r \<and> run_lines (translate (Suc m)) cmds s = Some r"
  using assms
proof (induction cmds arbitrary: s)
  case Nil
  then show ?case by simp
next
  case (Cons l ls)
  from Cons.prems(2) obtain c r where l: "l = c # r" and c: "c \<in> base_commands"
    by (auto simp: base_line_def)
  define t where "t = \<lparr> line = l, class_name = [], cmd = c, idx = 0, pop_push_expr = [] \<rparr>"
  have T: "Translator l [] 0 = Inr t" by (simp add: Translator_def l t_def)
  have "cmd t \<in> base_commands" using c by (simp add: t_def)
  from translate_base [OF Cons.prems(1) this, of n m]
  obtain r1 s1 where step: "translate (Suc n) t s = Some (r1, s1)" "translate (Suc m) t s = Some (r1, s1)"
    by (auto simp del: translate.simps)
  show ?case
  proof (cases r1)
    case (Inl e)
    with T step show ?thesis by (simp del: translate.simps)
  next
    case (Inr u)
    have "own_command (func_mappings s1)"
      using translate_tables [OF step(1)] Cons.prems(1) by simp
    from Cons.IH [OF this] Cons.prems(2)
    obtain r' where "run_lines (translate (Suc n)) ls s1 = Some r'" "run_lines (translate (Suc m)) ls s1 = Some r'"
      by (auto simp del: translate.simps)
    with T step Inr show ?thesis by (simp del: translate.simps)
  qed
qed

lemma apply_handler_depth:
  assumes own: "own_command (func_mappings s)"
  shows "\<exists>r. apply_handler (translate (Suc n)) h t raw s = Some r \<and> apply_handler (translate (Suc m)) h t raw s = Some r"
proof (cases "expanding h")
  case False
  then show ?thesis by (rule apply_handler_simple)
next
  case True
  have rl: "\<exists>r. run_lines (translate (Suc n)) cmds s = Some r \<and> run_lines (translate (Suc m)) cmds s = Some r"
    if "\<forall>l\<in>set cmds. base_line l" for cmds
    by (rule run_lines_base [OF own that])
  from True consider "h = H_function" | "h = H_call" | "h = H_return" by (auto simp: expanding_def)
  then show ?thesis
  proof cases
    case 1
    show ?thesis
    proof (cases "function_cmds t")
      case (Inl e)
      with 1 show ?thesis by (simp add: apply_handler_def function_vm_def)
    next
      case (Inr cmds)
      from rl [OF function_cmds_base [OF Inr]] obtain r where
        "run_lines (translate (Suc n)) cmds s = Some r" "run_lines (translate (Suc m)) cmds s = Some r"
        by (auto simp del: translate.simps)
      with 1 Inr show ?thesis
        by (cases r) (auto simp: apply_handler_def function_vm_def split: sum.splits simp del: translate.simps)
    qed
  next
    case 2
    show ?thesis
    proof (cases "call_cmds t")
      case (Inl e)
      with 2 show ?thesis by (simp add: apply_handler_def call_vm_def)
    next
      case (Inr cmds)
      from rl [OF call_cmds_base [OF Inr]] obtain r where
        "run_lines (translate (Suc n)) cmds s = Some r" "run_lines (translate (Suc m)) cmds s = Some r"
        by (auto simp del: translate.simps)
      with 2 Inr show ?thesis
        by (cases r) (auto simp: apply_handler_def call_vm_def split: sum.splits simp del: translate.simps)
    qed
  next
    case 3
    from rl [OF return_cmds_base] obtain r where
      "run_lines (translate (Suc n)) return_cmds s = Some r" "run_lines (translate (Suc m)) return_cmds s = Some r"
      by (auto simp del: translate.simps)
    with 3 show ?thesis
      by (cases r) (auto simp: apply_handler_def return_vm_def split: sum.splits simp del: translate.simps)
  qed
qed

lemma translate_depth:
  assumes own: "own_command (func_mappings s)"
  shows "\<exists>r. translate (Suc (Suc n)) t s = Some r \<and> translate (Suc (Suc m)) t s = Some r"
proof -
  let ?s = "if cmd t \<noteq> ''label'' then make_comm t s else s"
  have own': "own_command (func_mappings ?s)" using own by simp
  have eq: "translate_body (translate (Suc n)) t ?s = translate_body (translate (Suc m)) t ?s"
    by (rule translate_body_cong) (use apply_handler_depth [OF own'] in metis)
  have "translate_body (translate (Suc n)) t ?s \<noteq> None"
    by (rule translate_body_returns) (use apply_handler_depth [OF own'] in \<open>metis option.distinct(1)\<close>)
  with eq show ?thesis by (auto simp del: translate.simps(2) simp add: translate.simps(2) [of "Suc _"])
qed

lemma pop_push_helper_origin:
  assumes l: "line t = c # seg # off # rest" and seg: "seg \<noteq> ''static''"
  shows "pop_push_helper (t \<lparr> class_name := cc, idx := i \<rparr>)
       = (case pop_push_helper t of Inl e \<Rightarrow> Inl e | Inr t' \<Rightarrow> Inr (t' \<lparr> class_name := cc, idx := i \<rparr>))"
  using l seg by (simp add: pop_push_helper_def Let_def split: option.splits)

lemma pop_push_origin [simp]: "pop_push (t \<lparr> class_name := cc, idx := i \<rparr>) raw = pop_push t raw"
  by (simp add: pop_push_def)

lemma pattern_name_origin [simp]:
  "pattern_name_of (t \<lparr> class_name := cc, idx := i \<rparr>) h = pattern_name_of t h"
  by (simp add: pattern_name_of_def split: list.splits)

lemma make_comm_origin [simp]: "make_comm (t \<lparr> class_name := cc, idx := i \<rparr>) s = make_comm t s"
  by (simp add: make_comm_def)

lemma pop_push_source_internal:
  assumes c: "cmd t \<in> {''pop'', ''push''}" and l: "line t = c # seg # off # rest"
    and seg: "seg \<noteq> ''static''" and fm: "func_mappings s (cmd t) = Some H_pop_push"
  shows "translate (Suc n) (t \<lparr> class_name := cc, idx := i \<rparr>) s = translate (Suc n) t s"
proof -
  let ?u = "t \<lparr> class_name := cc, idx := i \<rparr>"
  let ?s = "make_comm t s"
  have ne: "cmd t \<noteq> ''label''" using c by auto
  have fm': "func_mappings ?s (cmd t) = Some H_pop_push" using fm by simp
  have body: "translate_body tr ?u ?s = translate_body tr t ?s" for tr
  proof (cases "pop_push_helper t")
    case (Inl e)
    then show ?thesis
      using c fm' pop_push_helper_origin [OF l seg, where cc = cc and i = i]
      by (simp add: translate_body_def is_other_def split: sum.splits)
  next
    case (Inr t')
    then show ?thesis
      using c fm' pop_push_helper_origin [OF l seg, where cc = cc and i = i]
      by (simp add: translate_body_def is_other_def apply_handler_def split: sum.splits option.splits)
  qed
  show ?thesis using ne body by simp
qed

lemma pop_push_helper_negative:
  assumes l: "line t = c # seg # off # rest" and v: "py_int off = Inr v" and neg: "v < 0"
    and seg: "seg \<in> {''static'', ''temp'', ''pointer'', ''local'', ''argument'', ''this'', ''that'', ''constant''}"
  shows "pop_push_helper t = Inr (t \<lparr> pop_push_expr :=
           (if seg = ''static'' then [PStr (class_name t), PStr (drop 1 off), PNone]
            else if seg \<in> {''temp'', ''constant''} then [PStr (drop 1 off), PNone, PNone]
            else if seg = ''pointer'' then [PStr (drop 1 off), PStr ''-'', PNone]
            else [PStr (str_int (the (loc_dict seg))), PStr (drop 1 off), PStr ''-'']) \<rparr>)"
  using seg by (auto simp: pop_push_helper_def l v neg Let_def pointer_dict_def loc_dict_def)

lemma create_mappings_errors:
  "fst (create_mappings other files s) \<in> {Inr (), Inl AttributeError, Inl IndexError}"
proof (induction files arbitrary: s)
  case Nil
  then show ?case by simp
next
  case (Cons f fs)
  obtain filename lns where f: "f = (filename, lns)" by (cases f)
  have rp: "read_pattern ls acc = Inl e \<Longrightarrow> e = IndexError" for ls acc e
    by (induction ls arbitrary: acc) (auto split: list.splits if_splits)
  have co: "commands_of pn = Inl e \<Longrightarrow> e = IndexError" for pn e
    by (auto simp: commands_of_def split: if_splits list.splits)
  have ga: "getattr_cls other name = Inl e \<Longrightarrow> e = AttributeError" for name e
    by (auto simp: getattr_cls_def split: if_splits)
  show ?case
    using Cons.IH rp co ga unfolding f
    by (auto simp: Let_def split: sum.splits prod.splits list.splits)
qed

lemma main_loop_tables:
  "main_loop n cc ps s = Some (r, s') \<Longrightarrow> code_patterns s' = code_patterns s \<and> func_mappings s' = func_mappings s"
proof (induction ps arbitrary: s cc)
  case Nil
  then show ?case by simp
next
  case (Cons p ps)
  obtain i l where p: "p = (i, l)" by (cases p)
  from Cons.prems p consider "s' = s"
    | t r1 s1 where "translate n t s = Some (r1, s1)" "s' = s1"
    | t cc' s1 where "translate n t s = Some (Inr (), s1)" "main_loop n cc' ps s1 = Some (r, s')"
    by (auto split: list.splits sum.splits option.splits if_splits prod.splits)
  then show ?case
  proof cases
    case 1
    then show ?thesis by simp
  next
    case 2
    with translate_tables [OF 2(1)] show ?thesis by simp
  next
    case 3
    with translate_tables [OF 3(1)] Cons.IH [OF 3(2)] show ?thesis by simp
  qed
qed

lemma translate_body_cases2:
  assumes "translate_body tr t s = Some (r, s')"
  shows "(\<exists>e. r = Inl e \<and> s' = s) \<or>
         (\<exists>h pn t' raw r1 s1. func_mappings s (cmd t) = Some h \<and> pattern_name_of t h = Inr pn \<and>
            (if cmd t \<in> {''pop'', ''push''} then pop_push_helper t else Inr t) = Inr t' \<and>
            code_patterns s pn = Some raw \<and>
            apply_handler tr h t' raw s = Some (r1, s1) \<and>
            (case r1 of Inl e \<Rightarrow> r = Inl e \<and> s' = s1
                      | Inr code \<Rightarrow> r = Inr () \<and> s' = s1 \<lparr> asm_code := asm_code s1 @ code \<rparr>))"
proof (cases "func_mappings s (cmd t)")
  case None
  with assms show ?thesis by (auto simp: translate_body_def)
next
  case (Some h)
  show ?thesis
  proof (cases "is_other h")
    case True
    with assms Some show ?thesis by (auto simp: translate_body_def)
  next
    case False
    show ?thesis
    proof (cases "pattern_name_of t h")
      case (Inl e)
      with assms Some False show ?thesis by (auto simp: translate_body_def)
    next
      case pn: (Inr pattern_name)
      show ?thesis
      proof (cases "if cmd t \<in> {''pop'', ''push''} then pop_push_helper t else Inr t")
        case (Inl e)
        with assms Some False pn show ?thesis by (auto simp: translate_body_def)
      next
        case t': (Inr t')
        show ?thesis
        proof (cases "code_patterns s pattern_name")
          case None
          with assms Some False pn t' show ?thesis by (auto simp: translate_body_def)
        next
          case raw: (Some raw)
          show ?thesis
          proof (cases "apply_handler tr h t' raw s")
            case None
            with assms Some False pn t' raw show ?thesis by (auto simp: translate_body_def)
          next
            case ah: (Some p)
            obtain r1 s1 where p: "p = (r1, s1)" by (cases p)
            have "case r1 of Inl e \<Rightarrow> r = Inl e \<and> s' = s1
                      | Inr code \<Rightarrow> r = Inr () \<and> s' = s1 \<lparr> asm_code := asm_code s1 @ code \<rparr>"
              using assms Some False pn t' raw ah p
              by (cases r1) (auto simp: translate_body_def)
            with Some pn t' raw ah p show ?thesis by blast
          qed
        qed
      qed
    qed
  qed
qed

lemma run_lines_blocks:
  assumes tr: "appends tr"
  shows "run_lines tr cmds s = Some (r, s1) \<Longrightarrow>
     asm_code s1 = asm_code s @ concat (blocks_of tr cmds s)
     \<and> (r = Inr () \<longrightarrow> length (blocks_of tr cmds s) = length cmds)"
proof (induction cmds arbitrary: s)
  case Nil
  then show ?case by simp
next
  case (Cons l ls)
  show ?case
  proof (cases "Translator l [] 0")
    case (Inl e)
    with Cons.prems show ?thesis by auto
  next
    case T: (Inr t)
    show ?thesis
    proof (cases "tr t s")
      case None
      with Cons.prems T show ?thesis by simp
    next
      case (Some p)
      obtain r1 s2 where p: "p = (r1, s2)" by (cases p)
      from tr Some p obtain b where b: "asm_code s2 = asm_code s @ b"
        unfolding appends_def by blast
      show ?thesis
      proof (cases r1)
        case (Inl e)
        with Cons.prems T Some p b show ?thesis by auto
      next
        case (Inr u)
        with Cons.prems T Some p have "run_lines tr ls s2 = Some (r, s1)" by simp
        from Cons.IH [OF this] T Some p b Inr show ?thesis by simp
      qed
    qed
  qed
qed

lemma apply_handler_appends:
  assumes tr: "appends tr" and ah: "apply_handler tr h t raw s = Some (r, s')"
  shows "\<exists>b. asm_code s' = asm_code s @ b"
proof -
  have rl: "\<exists>b. asm_code s1 = asm_code s @ b" if "run_lines tr cmds s = Some (r1, s1)" for cmds r1 s1
    using run_lines_blocks [OF tr that] by blast
  show ?thesis
  proof (cases h)
    case H_lt_eq_gt
    with ah lt_eq_gt_tables [of t raw s r s'] show ?thesis by (simp add: apply_handler_def)
  next
    case H_function
    with ah rl show ?thesis
      by (auto simp: apply_handler_def function_vm_def split: sum.splits option.splits prod.splits)
  next
    case H_call
    with ah rl show ?thesis
      by (auto simp: apply_handler_def call_vm_def split: sum.splits option.splits prod.splits)
  next
    case H_return
    with ah rl show ?thesis
      by (auto simp: apply_handler_def return_vm_def split: sum.splits option.splits prod.splits)
  qed (use ah in \<open>auto simp: apply_handler_def\<close>)
qed

lemma translate_body_appends:
  assumes tr: "appends tr" and b: "translate_body tr t s = Some (r, s')"
  shows "\<exists>b. asm_code s' = asm_code s @ b"
  using translate_body_cases [OF b] apply_handler_appends [OF tr]
  by (fastforce split: sum.splits)

lemma comm_state:
  "(if cmd t \<noteq> ''label'' then make_comm t s else s) = s \<lparr> asm_code := asm_code s @ comment_of t \<rparr>"
  by (simp add: make_comm_def comment_of_def)

lemma translate_appends: "appends (translate n)"
proof (induction n)
  case 0
  then show ?case by (simp add: appends_def)
next
  case (Suc n)
  show ?case
    unfolding appends_def
  proof (intro allI impI)
    fix t s r s'
    assume "translate (Suc n) t s = Some (r, s')"
    then have "translate_body (translate n) t (s \<lparr> asm_code := asm_code s @ comment_of t \<rparr>) = Some (r, s')"
      by (simp only: translate.simps comm_state)
    from translate_body_appends [OF Suc this]
    show "\<exists>b. asm_code s' = asm_code s @ b" by auto
  qed
qed

lemma translate_body_success:
  assumes "translate_body tr t s = Some (Inr (), s')"
  shows "\<exists>h pn t' raw code s1. func_mappings s (cmd t) = Some h \<and> pattern_name_of t h = Inr pn \<and>
            (if cmd t \<in> {''pop'', ''push''} then pop_push_helper t else Inr t) = Inr t' \<and>
            code_patterns s pn = Some raw \<and>
            apply_handler tr h t' raw s = Some (Inr code, s1) \<and>
            s' = s1 \<lparr> asm_code := asm_code s1 @ code \<rparr>"
  using translate_body_cases2 [OF assms]
  apply simp
  apply (elim exE conjE)
  subgoal for h pn t' raw r1 s1
    by (cases r1) auto
  done

lemma expanding_block:
  assumes tb: "translate_body tr t s0 = Some (Inr (), s')"
    and fm: "func_mappings s0 (cmd t) = Some h" and ex: "expanding h"
    and c: "cmd t = drop 1 (handler_name h)" and tr: "appends tr"
  shows "\<exists>cmds tail.
            (h = H_function \<longrightarrow> function_cmds t = Inr cmds \<and> tail = [])
          \<and> (h = H_call \<longrightarrow> call_cmds t = Inr cmds \<and> tail = [])
          \<and> (h = H_return \<longrightarrow> cmds = return_cmds \<and>
                (\<exists>raw. code_patterns s0 ''_return'' = Some raw
                   \<and> newline (format raw [''var_1'' \<mapsto> PInt ret_addr]) = Inr tail))
          \<and> length (blocks_of tr cmds s0) = length cmds
          \<and> asm_code s' = asm_code s0 @ concat (blocks_of tr cmds s0) @ tail"
proof -
  from ex c have cases: "cmd t = ''function'' \<or> cmd t = ''call'' \<or> cmd t = ''return''"
    by (auto simp: expanding_def)
  then have ne: "cmd t \<notin> {''pop'', ''push''}" "cmd t \<notin> {''label'', ''goto'', ''if-goto''}"
    by auto
  have pn: "pattern_name_of t h = Inr (handler_name h)"
    using ne by (simp add: pattern_name_of_def)
  from translate_body_success [OF tb] fm pn ne
  obtain raw code s1 where raw: "code_patterns s0 (handler_name h) = Some raw"
    and ah: "apply_handler tr h t raw s0 = Some (Inr code, s1)"
    and s': "s' = s1 \<lparr> asm_code := asm_code s1 @ code \<rparr>"
    by auto
  from ex consider "h = H_function" | "h = H_call" | "h = H_return" by (auto simp: expanding_def)
  then show ?thesis
  proof cases
    case 1
    with ah obtain cmds where cm: "function_cmds t = Inr cmds"
      and rl: "run_lines tr cmds s0 = Some (Inr (), s1)" and code: "code = []"
      by (auto simp: apply_handler_def function_vm_def split: sum.splits option.splits prod.splits)
    from run_lines_blocks [OF tr rl] cm code s' 1 show ?thesis by auto
  next
    case 2
    with ah obtain cmds where cm: "call_cmds t = Inr cmds"
      and rl: "run_lines tr cmds s0 = Some (Inr (), s1)" and code: "code = []"
      by (auto simp: apply_handler_def call_vm_def split: sum.splits option.splits prod.splits)
    from run_lines_blocks [OF tr rl] cm code s' 2 show ?thesis by auto
  next
    case 3
    with ah have rl: "run_lines tr return_cmds s0 = Some (Inr (), s1)"
      and code: "newline (format raw [''var_1'' \<mapsto> PInt ret_addr]) = Inr code"
      by (auto simp: apply_handler_def return_vm_def split: sum.splits option.splits prod.splits)
    from run_lines_blocks [OF tr rl] raw code s' 3 show ?thesis by auto
  qed
qed

lemma example_cls_asm: "asm_code example_cls = []"
  using create_mappings_keeps [of "\<lambda>_. False" example_patterns init_cls
      "fst (create_mappings (\<lambda>_. False) example_patterns init_cls)" example_cls]
  by (simp add: example_cls_def init_cls_def)

lemma outcome_asm:
  "map_option fst x = Some r \<Longrightarrow> map_option (asm_code \<circ> snd) x = Some (asm_code (snd (the x)))"
  by (cases x) auto

lemma return_cmds_list:
  "return_cmds =
     [[''push'', ''local'', ''-5''],
      [''pop'', ''pointer'', ''12''],
      [''pop'', ''argument'', ''0''],
      [''push'', ''pointer'', ''-1''],
      [''push'', ''constant'', ''1''],
      [''add''],
      [''pop'', ''pointer'', ''11''],
      [''push'', ''local'', ''-1''],
      [''pop'', ''pointer'', ''1''],
      [''push'', ''local'', ''-2''],
      [''pop'', ''pointer'', ''0''],
      [''push'', ''local'', ''-3''],
      [''pop'', ''pointer'', ''-1''],
      [''push'', ''local'', ''-4''],
      [''pop'', ''pointer'', ''-2''],
      [''push'', ''pointer'', ''11''],
      [''pop'', ''pointer'', ''-3'']]"
  by (simp add: return_cmds_def ret_addr_def sp_addr_def str_int_small)

lemma return_local_writes: "positions (\<lambda>l. written_cell l = loc_dict ''local'') return_cmds = [14]"
  by code_simp

lemma return_local_reads: "positions (\<lambda>l. reads_through l = loc_dict ''local'') return_cmds = [0, 7, 9, 11, 13]"
  by code_simp

lemma return_no_copy: "positions (\<lambda>l. read_cell l = loc_dict ''local'') return_cmds = []"
  by code_simp

lemma digit_val_char: "d < 10 \<Longrightarrow> digit_val (digit_char d) = d"
  by (simp add: digit_val_def digit_char_def)

lemma nat_of_str_nat: "foldl (\<lambda>a c. 10 * a + digit_val c) 0 (str_nat n) = n"
proof (induction n rule: str_nat.induct)
  case (1 n)
  show ?case
  proof (cases "n < 10")
    case True
    then show ?thesis by (subst str_nat.simps) (simp add: digit_val_char)
  next
    case False
    with 1 have "foldl (\<lambda>a c. 10 * a + digit_val c) 0 (str_nat (n div 10)) = n div 10" by simp
    with False show ?thesis
      by (subst str_nat.simps) (simp add: digit_val_char)
  qed
qed

lemma str_nat_inj: "str_nat a = str_nat b \<Longrightarrow> a = b"
  by (metis nat_of_str_nat)

lemma digit_char_not_minus: "d < 10 \<Longrightarrow> digit_char d \<noteq> CHR ''-''"
proof
  assume d: "d < 10" and "digit_char d = CHR ''-''"
  then have "(of_char (digit_char d) :: nat) = of_char CHR ''-''" by simp
  with d show False by (simp add: digit_char_def)
qed

lemma str_nat_hd: "str_nat n \<noteq> [] \<and> hd (str_nat n) \<noteq> CHR ''-''"
proof (induction n rule: str_nat.induct)
  case (1 n)
  show ?case
  proof (cases "n < 10")
    case True
    then show ?thesis by (subst (1 2) str_nat.simps) (simp add: digit_char_not_minus)
  next
    case False
    with 1 have "str_nat (n div 10) \<noteq> [] \<and> hd (str_nat (n div 10)) \<noteq> CHR ''-''" by simp
    with False show ?thesis
      by (subst (1 2) str_nat.simps) simp
  qed
qed

lemma str_int_inj: "str_int a = str_int b \<Longrightarrow> a = b"
proof -
  assume eq: "str_int a = str_int b"
  have neq: "CHR ''-'' # x \<noteq> str_nat n" for x n
    using str_nat_hd [of n] by (cases "str_nat n") auto
  show "a = b"
  proof (cases "a < 0"; cases "b < 0")
    assume "a < 0" "b < 0"
    with eq have "nat (- a) = nat (- b)" by (auto simp: str_int_def dest: str_nat_inj)
    with \<open>a < 0\<close> \<open>b < 0\<close> show ?thesis by simp
  next
    assume "a < 0" "\<not> b < 0"
    with eq neq show ?thesis by (auto simp: str_int_def)
  next
    assume "\<not> a < 0" "b < 0"
    with eq neq [of "str_nat (nat (- b))" "nat a"] show ?thesis by (auto simp: str_int_def)
  next
    assume "\<not> a < 0" "\<not> b < 0"
    with eq have "nat a = nat b" by (auto simp: str_int_def dest: str_nat_inj)
    with \<open>\<not> a < 0\<close> \<open>\<not> b < 0\<close> show ?thesis by simp
  qed
qed

lemma return_label_inj: "inj return_label"
  by (rule injI) (simp add: return_label_def str_int_inj)

subsection \<open>The loop of the driver, block by block\<close>

lemma main_loop_Cons_success:
  assumes "main_loop n cc ((i, l) # rest) s = Some (Inr (), s')"
  shows "\<exists>cc' t s1. Translator l cc' i = Inr t \<and> translate n t s = Some (Inr (), s1)
           \<and> main_loop n cc' rest s1 = Some (Inr (), s')"
  using assms
  by (auto split: list.splits sum.splits option.splits if_splits prod.splits)

lemma zip_upt_Cons:
  "zip (map int [k..<k + length (l # ls)]) (l # ls)
     = (int k, l) # zip (map int [Suc k..<Suc k + length ls]) ls"
proof -
  have "[k..<k + length (l # ls)] = k # [Suc k..<Suc k + length ls]"
    by (subst upt_rec) simp
  then show ?thesis by simp
qed

lemma main_loop_blocks:
  fixes inv :: "string list list \<Rightarrow> cls \<Rightarrow> bool"
    and R :: "string list list \<Rightarrow> string list \<Rightarrow> string \<Rightarrow> bool"
  assumes step: "\<And>pre l cc t st st'. inv pre st \<Longrightarrow> Translator l cc (int (length pre)) = Inr t \<Longrightarrow>
            translate n t st = Some (Inr (), st') \<Longrightarrow>
            inv (pre @ [l]) st' \<and> (\<exists>b. asm_code st' = asm_code st @ b \<and> R pre l b)"
  shows "inv pre s \<Longrightarrow>
     main_loop n cc (zip (map int [length pre..<length pre + length ls]) ls) s = Some (Inr (), s') \<Longrightarrow>
     \<exists>blocks. length blocks = length ls \<and> asm_code s' = asm_code s @ concat blocks
        \<and> (\<forall>j<length ls. R (pre @ take j ls) (ls ! j) (blocks ! j)) \<and> inv (pre @ ls) s'"
proof (induction ls arbitrary: pre s cc)
  case Nil
  then show ?case by simp
next
  case (Cons l ls)
  from Cons.prems(2) have "main_loop n cc ((int (length pre), l) # zip (map int [Suc (length pre)..<Suc (length pre) + length ls]) ls) s
      = Some (Inr (), s')"
    by (simp only: zip_upt_Cons)
  from main_loop_Cons_success [OF this]
  obtain cc' t s1 where T: "Translator l cc' (int (length pre)) = Inr t"
    and tr: "translate n t s = Some (Inr (), s1)"
    and rest: "main_loop n cc' (zip (map int [Suc (length pre)..<Suc (length pre) + length ls]) ls) s1 = Some (Inr (), s')"
    by blast
  from step [OF Cons.prems(1) T tr] obtain b where
    inv1: "inv (pre @ [l]) s1" and b: "asm_code s1 = asm_code s @ b" and Rb: "R pre l b"
    by blast
  have rest': "main_loop n cc' (zip (map int [length (pre @ [l])..<length (pre @ [l]) + length ls]) ls) s1 = Some (Inr (), s')"
    using rest by simp
  from Cons.IH [OF inv1 rest'] obtain blocks where
    len: "length blocks = length ls" and out: "asm_code s' = asm_code s1 @ concat blocks"
    and Rs: "\<forall>j<length ls. R ((pre @ [l]) @ take j ls) (ls ! j) (blocks ! j)"
    and inv': "inv ((pre @ [l]) @ ls) s'"
    by blast
  have all: "\<forall>j<length (l # ls). R (pre @ take j (l # ls)) ((l # ls) ! j) ((b # blocks) ! j)"
  proof (intro allI impI)
    fix j assume j: "j < length (l # ls)"
    show "R (pre @ take j (l # ls)) ((l # ls) ! j) ((b # blocks) ! j)"
    proof (cases j)
      case 0
      with Rb show ?thesis by simp
    next
      case (Suc j')
      with j Rs show ?thesis by simp
    qed
  qed
  have "length (b # blocks) = length (l # ls)" using len by simp
  moreover have "asm_code s' = asm_code s @ concat (b # blocks)" using out b by simp
  moreover have "inv (pre @ l # ls) s'" using inv' by simp
  ultimately show ?case using all by blast
qed

subsection \<open>Commands that leave the comparison counters alone\<close>

lemma pop_push_helper_cmd: "pop_push_helper t = Inr t' \<Longrightarrow> cmd t' = cmd t \<and> line t' = line t"
  by (auto simp: pop_push_helper_def Let_def split: list.splits option.splits)

lemma base_not_cmp: "c \<in> base_commands \<Longrightarrow> c \<notin> {''lt'', ''eq'', ''gt''}"
  by (auto simp: base_commands_def)

lemma run_lines_quiet:
  assumes tr: "\<And>t s r s'. dom (lt_eq_gt_counter s) \<subseteq> {''lt'', ''eq'', ''gt''} \<Longrightarrow> cmd t \<notin> {''lt'', ''eq'', ''gt''} \<Longrightarrow>
                 tr t s = Some (r, s') \<Longrightarrow> lt_eq_gt_counter s' = lt_eq_gt_counter s"
  shows "dom (lt_eq_gt_counter s) \<subseteq> {''lt'', ''eq'', ''gt''} \<Longrightarrow> \<forall>l\<in>set cmds. base_line l \<Longrightarrow>
         run_lines tr cmds s = Some (r, s') \<Longrightarrow> lt_eq_gt_counter s' = lt_eq_gt_counter s"
proof (induction cmds arbitrary: s)
  case Nil
  then show ?case by simp
next
  case (Cons l ls)
  from Cons.prems(2) obtain c rest where l: "l = c # rest" and c: "c \<in> base_commands"
    by (auto simp: base_line_def)
  define t where "t = \<lparr> line = l, class_name = [], cmd = c, idx = 0, pop_push_expr = [] \<rparr>"
  have T: "Translator l [] 0 = Inr t" by (simp add: Translator_def l t_def)
  have ct: "cmd t \<notin> {''lt'', ''eq'', ''gt''}" using base_not_cmp [OF c] by (simp add: t_def)
  show ?case
  proof (cases "tr t s")
    case None
    with Cons.prems(3) T show ?thesis by simp
  next
    case (Some p)
    obtain r1 s1 where p: "p = (r1, s1)" by (cases p)
    have keep: "lt_eq_gt_counter s1 = lt_eq_gt_counter s"
      using tr [OF Cons.prems(1) ct] Some p by simp
    show ?thesis
    proof (cases r1)
      case (Inl e)
      with Cons.prems(3) T Some p keep show ?thesis by simp
    next
      case (Inr u)
      with Cons.prems(3) T Some p have rest: "run_lines tr ls s1 = Some (r, s')" by simp
      have "dom (lt_eq_gt_counter s1) \<subseteq> {''lt'', ''eq'', ''gt''}" using keep Cons.prems(1) by simp
      from Cons.IH [OF this _ rest] Cons.prems(2) keep show ?thesis by simp
    qed
  qed
qed

lemma apply_handler_quiet:
  assumes tr: "\<And>t s r s'. dom (lt_eq_gt_counter s) \<subseteq> {''lt'', ''eq'', ''gt''} \<Longrightarrow> cmd t \<notin> {''lt'', ''eq'', ''gt''} \<Longrightarrow>
                 tr t s = Some (r, s') \<Longrightarrow> lt_eq_gt_counter s' = lt_eq_gt_counter s"
    and d: "dom (lt_eq_gt_counter s) \<subseteq> {''lt'', ''eq'', ''gt''}"
    and c: "cmd t \<notin> {''lt'', ''eq'', ''gt''}"
    and ah: "apply_handler tr h t raw s = Some (r, s')"
  shows "lt_eq_gt_counter s' = lt_eq_gt_counter s"
proof -
  have rl: "lt_eq_gt_counter s1 = lt_eq_gt_counter s"
    if "\<forall>l\<in>set cmds. base_line l" "run_lines tr cmds s = Some (r1, s1)" for cmds r1 s1
    using run_lines_quiet [of tr, OF tr d that] .
  have none: "lt_eq_gt_counter s (cmd t) = None" using d c by (auto simp: dom_def)
  show ?thesis
  proof (cases h)
    case H_lt_eq_gt
    with ah none show ?thesis by (simp add: apply_handler_def lt_eq_gt_def)
  next
    case H_function
    with ah rl function_cmds_base show ?thesis
      by (fastforce simp: apply_handler_def function_vm_def split: sum.splits option.splits prod.splits)
  next
    case H_call
    with ah rl call_cmds_base show ?thesis
      by (fastforce simp: apply_handler_def call_vm_def split: sum.splits option.splits prod.splits)
  next
    case H_return
    with ah rl [OF return_cmds_base] show ?thesis
      by (fastforce simp: apply_handler_def return_vm_def split: sum.splits option.splits prod.splits)
  qed (use ah in \<open>auto simp: apply_handler_def\<close>)
qed

lemma translate_quiet:
  "dom (lt_eq_gt_counter s) \<subseteq> {''lt'', ''eq'', ''gt''} \<Longrightarrow> cmd t \<notin> {''lt'', ''eq'', ''gt''} \<Longrightarrow>
   translate n t s = Some (r, s') \<Longrightarrow> lt_eq_gt_counter s' = lt_eq_gt_counter s"
proof (induction n arbitrary: t s r s')
  case 0
  then show ?case by simp
next
  case (Suc n)
  let ?s0 = "s \<lparr> asm_code := asm_code s @ comment_of t \<rparr>"
  have tb: "translate_body (translate n) t ?s0 = Some (r, s')"
    using Suc.prems(3) by (simp only: translate.simps comm_state)
  have d0: "dom (lt_eq_gt_counter ?s0) \<subseteq> {''lt'', ''eq'', ''gt''}" using Suc.prems(1) by simp
  from translate_body_cases2 [OF tb] show ?case
  proof (elim disjE exE conjE)
    fix e assume "s' = ?s0"
    then show ?thesis by simp
  next
    fix h pn t' raw r1 s1
    assume t': "(if cmd t \<in> {''pop'', ''push''} then pop_push_helper t else Inr t) = Inr t'"
      and ah: "apply_handler (translate n) h t' raw ?s0 = Some (r1, s1)"
      and res: "case r1 of Inl e \<Rightarrow> r = Inl e \<and> s' = s1
                      | Inr code \<Rightarrow> r = Inr () \<and> s' = s1 \<lparr> asm_code := asm_code s1 @ code \<rparr>"
    have "cmd t' = cmd t" using t' pop_push_helper_cmd by (auto split: if_splits)
    then have c': "cmd t' \<notin> {''lt'', ''eq'', ''gt''}" using Suc.prems(2) by simp
    have "lt_eq_gt_counter s1 = lt_eq_gt_counter ?s0"
      by (rule apply_handler_quiet [of "translate n", OF Suc.IH d0 c' ah])
    with res show ?thesis by (cases r1) auto
  qed
qed

subsection \<open>One step of the driver on a comparison\<close>

lemma occurrences_snoc:
  "occurrences c (pre @ [l]) = occurrences c pre + (if take 1 l = [c] then 1 else 0)"
  by (simp add: occurrences_def)

lemma translator_line: "Translator l cc i = Inr t \<Longrightarrow> line t = l \<and> idx t = i \<and> take 1 l = [cmd t]"
  by (auto simp: Translator_def split: list.splits)

lemma cmp_step:
  assumes ready: "cmp_ready st raw"
    and cnt: "lt_eq_gt_counter st = [''lt'' \<mapsto> occurrences ''lt'' pre, ''eq'' \<mapsto> occurrences ''eq'' pre,
                                     ''gt'' \<mapsto> occurrences ''gt'' pre]"
    and T: "Translator l cc i = Inr t"
    and tr: "translate (Suc n) t st = Some (Inr (), st')"
  shows "(cmp_ready st' raw \<and>
          lt_eq_gt_counter st' = [''lt'' \<mapsto> occurrences ''lt'' (pre @ [l]), ''eq'' \<mapsto> occurrences ''eq'' (pre @ [l]),
                                  ''gt'' \<mapsto> occurrences ''gt'' (pre @ [l])])
       \<and> (\<exists>b. asm_code st' = asm_code st @ b \<and>
            (\<forall>c jmp. c \<in> {''lt'', ''eq'', ''gt''} \<and> take 1 l = [c] \<and> jump_dict c = Some jmp \<longrightarrow>
               (\<exists>code. newline (format raw [''var_1'' \<mapsto> PStr (upper c), ''var_2'' \<mapsto> PStr jmp,
                                              ''var_3'' \<mapsto> PInt (occurrences c pre)]) = Inr code
                      \<and> b = ''// '' @ join '' '' l @ [CHR 0x0A] @ code)))"
proof -
  from translator_line [OF T] have lt: "line t = l" and hd: "take 1 l = [cmd t]" by simp_all
  have ready': "cmp_ready st' raw"
    using translate_tables [OF tr] ready by (simp add: cmp_ready_def)
  show ?thesis
  proof (cases "cmd t \<in> {''lt'', ''eq'', ''gt''}")
    case False
    have d: "dom (lt_eq_gt_counter st) \<subseteq> {''lt'', ''eq'', ''gt''}" by (auto simp: cnt split: if_splits)
    have keep: "lt_eq_gt_counter st' = lt_eq_gt_counter st" by (rule translate_quiet [OF d False tr])
    have occ: "occurrences c (pre @ [l]) = occurrences c pre" if "c \<in> {''lt'', ''eq'', ''gt''}" for c
      using that False hd by (auto simp: occurrences_snoc)
    from translate_appends [of "Suc n"] tr obtain b where b: "asm_code st' = asm_code st @ b"
      unfolding appends_def by blast
    have vac: "\<forall>c jmp. c \<in> {''lt'', ''eq'', ''gt''} \<and> take 1 l = [c] \<and> jump_dict c = Some jmp \<longrightarrow>
               (\<exists>code. newline (format raw [''var_1'' \<mapsto> PStr (upper c), ''var_2'' \<mapsto> PStr jmp,
                                              ''var_3'' \<mapsto> PInt (occurrences c pre)]) = Inr code
                      \<and> b = ''// '' @ join '' '' l @ [CHR 0x0A] @ code)"
      using False hd by auto
    from ready' keep cnt occ b vac show ?thesis by auto
  next
    case True
    define c0 where "c0 = cmd t"
    have c0: "c0 \<in> {''lt'', ''eq'', ''gt''}" and ct: "cmd t = c0" using True by (simp_all add: c0_def)
    obtain j0 where j0: "jump_dict c0 = Some j0" using jump_dict_cmp [OF c0] by blast
    have fm: "func_mappings st c0 = Some H_lt_eq_gt" using ready c0 by (auto simp: cmp_ready_def)
    have cp: "code_patterns st ''_lt_eq_gt'' = Some raw" using ready by (simp add: cmp_ready_def)
    have k: "lt_eq_gt_counter st c0 = Some (occurrences c0 pre)" using c0 by (auto simp: cnt)
    let ?r = "newline (format raw [''var_1'' \<mapsto> PStr (upper c0), ''var_2'' \<mapsto> PStr j0,
                                   ''var_3'' \<mapsto> PInt (occurrences c0 pre)])"
    note step = translate_cmp [OF c0 ct fm cp k j0, of n]
    from step tr obtain code where code: "?r = Inr code"
      and st': "st' = (make_comm t st) \<lparr> lt_eq_gt_counter := (lt_eq_gt_counter st)(c0 \<mapsto> occurrences c0 pre + 1),
                                  asm_code := asm_code (make_comm t st) @ code \<rparr>"
      by (cases ?r) auto
    have out: "asm_code st' = asm_code st @ ''// '' @ join '' '' l @ [CHR 0x0A] @ code"
      by (simp add: st' make_comm_def lt)
    have cnt': "lt_eq_gt_counter st' = [''lt'' \<mapsto> occurrences ''lt'' (pre @ [l]), ''eq'' \<mapsto> occurrences ''eq'' (pre @ [l]),
                                  ''gt'' \<mapsto> occurrences ''gt'' (pre @ [l])]"
      using c0 hd ct by (auto simp: st' make_comm_def cnt occurrences_snoc fun_eq_iff)
    have R: "\<forall>c jmp. c \<in> {''lt'', ''eq'', ''gt''} \<and> take 1 l = [c] \<and> jump_dict c = Some jmp \<longrightarrow>
               (\<exists>code'. newline (format raw [''var_1'' \<mapsto> PStr (upper c), ''var_2'' \<mapsto> PStr jmp,
                                              ''var_3'' \<mapsto> PInt (occurrences c pre)]) = Inr code'
                      \<and> ''// '' @ join '' '' l @ [CHR 0x0A] @ code = ''// '' @ join '' '' l @ [CHR 0x0A] @ code')"
    proof (intro allI impI)
      fix c jmp
      assume a: "c \<in> {''lt'', ''eq'', ''gt''} \<and> take 1 l = [c] \<and> jump_dict c = Some jmp"
      with hd ct have "c = c0" by simp
      with a j0 have "jmp = j0" by simp
      with \<open>c = c0\<close> code show "\<exists>code'. newline (format raw [''var_1'' \<mapsto> PStr (upper c), ''var_2'' \<mapsto> PStr jmp,
                                              ''var_3'' \<mapsto> PInt (occurrences c pre)]) = Inr code'
                      \<and> ''// '' @ join '' '' l @ [CHR 0x0A] @ code = ''// '' @ join '' '' l @ [CHR 0x0A] @ code'"
        by simp
    qed
    from ready' cnt' out R show ?thesis by blast
  qed
qed

lemma main_translate_stream:
  "main_translate n p s = main_loop n (if snd p then ''Sys'' else [])
      (zip (map int [length ([] :: string list list)..<length ([] :: string list list) + length (stream_of p)]) (stream_of p)) s"
  by (cases p) (simp add: main_translate_def stream_of_def enumerate_py_def)

lemma occurrences_increase:
  assumes "i < j" "j \<le> length stream" "take 1 (stream ! i) = [c]"
  shows "occurrences c (take i stream) < occurrences c (take j stream)"
proof -
  have "take j stream = take i stream @ stream ! i # take (j - Suc i) (drop (Suc i) stream)"
    using assms(1,2)
    by (metis Suc_leI le_add_diff_inverse less_le_trans take_add take_Suc_conv_app_nth append.assoc append_Cons append_Nil)
  then show ?thesis using assms(3) by (simp add: occurrences_def)
qed

lemma upper_cmp: "upper ''lt'' = ''LT''" "upper ''eq'' = ''EQ''" "upper ''gt'' = ''GT''"
  by code_simp+

subsection \<open>The label that ends the block of a call\<close>

lemma uses_only_ok: "uses_only {''var_1''} p \<Longrightarrow> piece_ok [''var_1'' \<mapsto> v] p"
  by (cases p) (simp_all add: uses_only_def plain_var)

lemma label_pattern_format:
  assumes "list_all (uses_only {''var_1''}) lp"
  shows "newline (format (template_text lp) [''var_1'' \<mapsto> PStr lbl]) = Inr (render_label lp lbl)"
proof -
  have "list_all (piece_ok [''var_1'' \<mapsto> PStr lbl]) lp"
    using assms by (simp add: list_all_iff uses_only_ok)
  then show ?thesis by (simp add: format_template newline_def render_label_def)
qed

lemma translate_label_line:
  assumes fm: "func_mappings s ''label'' = Some H_label_goto_if_goto"
    and cp: "code_patterns s ''_label'' = Some (template_text lp)"
    and lp: "list_all (uses_only {''var_1''}) lp"
    and T: "Translator [''label'', lbl] cc i = Inr t"
  shows "translate (Suc n) t s = Some (Inr (), s \<lparr> asm_code := asm_code s @ render_label lp lbl \<rparr>)"
proof -
  from T have c: "cmd t = ''label''" and l: "line t = [''label'', lbl]"
    by (auto simp: Translator_def)
  show ?thesis
    using fm cp label_pattern_format [OF lp, of lbl]
    by (simp add: c l translate_body_def is_other_def pattern_name_of_def apply_handler_def
          label_goto_if_goto_def)
qed

lemma run_lines_append:
  "run_lines tr (xs @ ys) s =
     (case run_lines tr xs s of
        None \<Rightarrow> None
      | Some (Inl e, s') \<Rightarrow> Some (Inl e, s')
      | Some (Inr u, s') \<Rightarrow> run_lines tr ys s')"
  by (induction xs arbitrary: s) (auto split: sum.splits option.splits prod.splits)

lemma call_cmds_last:
  "call_cmds t = Inr cmds \<Longrightarrow> \<exists>front. cmds = front @ [[''label'', return_label (idx t + 1)]]"
  unfolding call_cmds_def Let_def
  by (auto split: list.splits)

lemma run_lines_translate_tables:
  "run_lines (translate n) ls s = Some (r, s') \<Longrightarrow>
     code_patterns s' = code_patterns s \<and> func_mappings s' = func_mappings s"
  apply (rule run_lines_tables [where tr = "translate n"])
   apply (erule translate_tables)
  apply assumption
  done

lemma call_block_label:
  assumes ready: "call_ready s lp"
    and T: "Translator l cc i = Inr t"
    and c: "take 1 l = [''call'']"
    and run: "translate (Suc (Suc m)) t s = Some (Inr (), s')"
  shows "\<exists>mid. asm_code s' = asm_code s @ ''// '' @ join '' '' l @ [CHR 0x0A] @ mid
                  @ render_label lp (return_label (i + 1))"
proof -
  from translator_line [OF T] c have lt: "line t = l" and it: "idx t = i" and ct: "cmd t = ''call''"
    by simp_all
  let ?s0 = "s \<lparr> asm_code := asm_code s @ comment_of t \<rparr>"
  let ?tr = "translate (Suc m)"
  let ?lbl = "return_label (i + 1)"
  have tb: "translate_body ?tr t ?s0 = Some (Inr (), s')"
    using run by (simp only: translate.simps comm_state)
  from translate_body_success [OF tb] obtain h pn t' raw code s1 where
    h: "func_mappings ?s0 (cmd t) = Some h"
    and t': "(if cmd t \<in> {''pop'', ''push''} then pop_push_helper t else Inr t) = Inr t'"
    and ah: "apply_handler ?tr h t' raw ?s0 = Some (Inr code, s1)"
    and s': "s' = s1 \<lparr> asm_code := asm_code s1 @ code \<rparr>"
    by blast
  have hc: "h = H_call" using h ready by (simp add: ct call_ready_def)
  have tt: "t' = t" using t' by (simp add: ct)
  from ah have cv: "call_vm ?tr t ?s0 = Some (Inr code, s1)"
    by (simp add: hc tt apply_handler_def)
  then obtain cmds where cc: "call_cmds t = Inr cmds"
    and rl: "run_lines ?tr cmds ?s0 = Some (Inr (), s1)" and code: "code = []"
    by (auto simp: call_vm_def split: sum.splits option.splits prod.splits)
  from call_cmds_last [OF cc] obtain front where fr: "cmds = front @ [[''label'', ?lbl]]"
    by (auto simp: it)
  from rl obtain s2 where r1: "run_lines ?tr front ?s0 = Some (Inr (), s2)"
    and r2: "run_lines ?tr [[''label'', ?lbl]] s2 = Some (Inr (), s1)"
    unfolding fr run_lines_append
    by (auto split: sum.splits option.splits prod.splits)
  from run_lines_translate_tables [OF r1] ready
  have fm2: "func_mappings s2 ''label'' = Some H_label_goto_if_goto"
    and cp2: "code_patterns s2 ''_label'' = Some (template_text lp)"
    and lp: "list_all (uses_only {''var_1''}) lp"
    by (simp_all add: call_ready_def)
  from run_lines_blocks [OF translate_appends r1] obtain mid
    where mid: "asm_code s2 = asm_code ?s0 @ mid" by blast
  have T2: "Translator [''label'', ?lbl] [] 0
     = Inr \<lparr> line = [''label'', ?lbl], class_name = [], cmd = ''label'', idx = 0, pop_push_expr = [] \<rparr>"
    by (simp add: Translator_def)
  note tl = translate_label_line [OF fm2 cp2 lp T2, of m]
  have s1: "s1 = s2 \<lparr> asm_code := asm_code s2 @ render_label lp ?lbl \<rparr>"
    using r2 by (simp add: T2 tl del: translate.simps)
  have co: "comment_of t = ''// '' @ join '' '' l @ [CHR 0x0A]"
    by (simp add: comment_of_def ct lt)
  have "asm_code s' = asm_code s @ ''// '' @ join '' '' l @ [CHR 0x0A] @ mid @ render_label lp ?lbl"
    by (simp add: s' code s1 mid co)
  then show ?thesis by blast
qed

lemma call_step:
  assumes ready: "call_ready st lp"
    and T: "Translator l cc (int (length pre)) = Inr t"
    and tr: "translate (Suc (Suc m)) t st = Some (Inr (), st')"
  shows "call_ready st' lp \<and> (\<exists>b. asm_code st' = asm_code st @ b \<and>
           (take 1 l = [''call''] \<longrightarrow>
              (\<exists>mid. b = ''// '' @ join '' '' l @ [CHR 0x0A] @ mid
                          @ render_label lp (return_label (int (length pre) + 1)))))"
proof -
  have ready': "call_ready st' lp"
    using translate_tables [OF tr] ready by (simp add: call_ready_def)
  show ?thesis
  proof (cases "take 1 l = [''call'']")
    case True
    from call_block_label [OF ready T True tr] obtain mid where
      "asm_code st' = asm_code st @ ''// '' @ join '' '' l @ [CHR 0x0A] @ mid
                  @ render_label lp (return_label (int (length pre) + 1))"
      by blast
    with ready' show ?thesis by blast
  next
    case False
    from translate_appends [of "Suc (Suc m)"] tr obtain b where "asm_code st' = asm_code st @ b"
      unfolding appends_def by blast
    with ready' False show ?thesis by blast
  qed
qed

lemma call_positions_card:
  "card ((\<lambda>j. return_label (int j + 1)) ` {j. j < length st \<and> take 1 (st ! j) = [''call'']})
     = nat (occurrences ''call'' st)"
proof -
  have "inj (\<lambda>j. return_label (int j + 1))"
    by (rule injI) (auto dest: injD [OF return_label_inj])
  then have "inj_on (\<lambda>j. return_label (int j + 1)) {j. j < length st \<and> take 1 (st ! j) = [''call'']}"
    by (rule inj_on_subset) simp
  then have "card ((\<lambda>j. return_label (int j + 1)) ` {j. j < length st \<and> take 1 (st ! j) = [''call'']})
      = card {j. j < length st \<and> take 1 (st ! j) = [''call'']}"
    by (rule card_image)
  also have "\<dots> = length (filter (\<lambda>l. take 1 l = [''call'']) st)"
    by (simp add: length_filter_conv_card)
  finally show ?thesis by (simp add: occurrences_def)
qed

section \<open>The expansion of a call\<close>



section \<open>The restores of return\<close>

text \<open>
  C2 (as amended). For every \<^verbatim>\<open>return\<close> the expansion restores the caller's that, this,
  argument and local base pointers, in that order, each read at its fixed negative offset
  (-1 to -4) from the current local base. The expansion takes no snapshot of the local
  base: no instruction reads the base cell as a value. Instead the local base is written
  once, by the last restore, after every read through it (positions 0, 7, 9, 11 and 13
  against position 14), so each restore reads its source before the base pointer it
  depends on is overwritten.
\<close>

theorem return_restores:
  "return_cmds =
     [[''push'', ''local'', ''-5''],
      [''pop'', ''pointer'', ''12''],
      [''pop'', ''argument'', ''0''],
      [''push'', ''pointer'', ''-1''],
      [''push'', ''constant'', ''1''],
      [''add''],
      [''pop'', ''pointer'', ''11''],
      [''push'', ''local'', ''-1''],
      [''pop'', ''pointer'', ''1''],
      [''push'', ''local'', ''-2''],
      [''pop'', ''pointer'', ''0''],
      [''push'', ''local'', ''-3''],
      [''pop'', ''pointer'', ''-1''],
      [''push'', ''local'', ''-4''],
      [''pop'', ''pointer'', ''-2''],
      [''push'', ''pointer'', ''11''],
      [''pop'', ''pointer'', ''-3'']]
   \<and> map written_cell (take 8 (drop 7 return_cmds))
       = [None, loc_dict ''that'', None, loc_dict ''this'', None, loc_dict ''argument'', None, loc_dict ''local'']
   \<and> positions (\<lambda>l. reads_through l = loc_dict ''local'') return_cmds = [0, 7, 9, 11, 13]
   \<and> positions (\<lambda>l. written_cell l = loc_dict ''local'') return_cmds = [14]
   \<and> positions (\<lambda>l. read_cell l = loc_dict ''local'') return_cmds = []
   \<and> return_vm tr t raw_code s =
        (case run_lines tr return_cmds s of
           None \<Rightarrow> None
         | Some (Inl e, s') \<Rightarrow> Some (Inl e, s')
         | Some (Inr u, s') \<Rightarrow> Some (newline (format raw_code [''var_1'' \<mapsto> PInt ret_addr]), s'))"
proof -
  have w: "map written_cell (take 8 (drop 7 return_cmds))
       = [None, loc_dict ''that'', None, loc_dict ''this'', None, loc_dict ''argument'', None, loc_dict ''local'']"
    by code_simp
  have vm: "return_vm tr t raw_code s =
        (case run_lines tr return_cmds s of
           None \<Rightarrow> None
         | Some (Inl e, s') \<Rightarrow> Some (Inl e, s')
         | Some (Inr u, s') \<Rightarrow> Some (newline (format raw_code [''var_1'' \<mapsto> PInt ret_addr]), s'))"
    by (simp add: return_vm_def)
  from return_cmds_list w return_local_reads return_local_writes return_no_copy vm
  show ?thesis by (intro conjI)
qed

theorem return_restores_witness:
  "length return_cmds = 17
   \<and> map written_cell (take 8 (drop 7 return_cmds)) = [None, Some 4, None, Some 3, None, Some 2, None, Some 1]
   \<and> return_vm (translate 1) \<lparr> line = [''return''], class_name = [], cmd = ''return'', idx = 0, pop_push_expr = [] \<rparr> [] example_cls =
        (case run_lines (translate 1) return_cmds example_cls of
           None \<Rightarrow> None
         | Some (Inl e, s') \<Rightarrow> Some (Inl e, s')
         | Some (Inr u, s') \<Rightarrow> Some (newline (format [] [''var_1'' \<mapsto> PInt ret_addr]), s'))"
proof -
  note inst = return_restores [where tr = "translate 1" and s = example_cls and raw_code = "[]"
      and t = "\<lparr> line = [''return''], class_name = [], cmd = ''return'', idx = 0, pop_push_expr = [] \<rparr>"]
  note rc = inst [THEN conjunct1]
  note wr = inst [THEN conjunct2, THEN conjunct1]
  note vm = inst [THEN conjunct2, THEN conjunct2, THEN conjunct2, THEN conjunct2, THEN conjunct2]
  have 1: "length return_cmds = 17" by (subst rc) simp
  have 2: "map written_cell (take 8 (drop 7 return_cmds)) = [None, Some 4, None, Some 3, None, Some 2, None, Some 1]"
    by (subst wr) (simp add: loc_dict_def)
  from 1 2 vm show ?thesis by (intro conjI)
qed

text \<open>
  The claim as stated has the implementation snapshot the local base. Nothing in the
  expansion reads the local base cell: \<^verbatim>\<open>push pointer -2\<close>, the one instruction that
  would, does not occur.
\<close>

theorem return_snapshot_counterexample:
  "filter (\<lambda>l. read_cell l = loc_dict ''local'') return_cmds = []
   \<and> loc_dict ''local'' = Some 1
   \<and> read_cell [''push'', ''pointer'', ''-2''] = Some 1
   \<and> [''push'', ''pointer'', ''-2''] \<notin> set return_cmds"
  by code_simp

section \<open>Return labels\<close>

text \<open>
  C3 (as amended). For every program that the driver translates without an error, with a
  label pattern made of plain text and \<^verbatim>\<open>var_1\<close> placeholders: a call at position \<open>j\<close> of
  the instruction stream (the program, after the jump to \<^verbatim>\<open>Sys.init\<close> when there is
  one; positions count from 0) contributes a block that starts with its comment line and
  ends with the declaration of the label \<^verbatim>\<open>RETURN_\<close>\<open>(j + 1)\<close> as the label pattern renders
  it. The number is the position of the call in the instruction stream plus one; it is
  not a count of call sites. The numbers grow with the position and calls at different
  positions get different labels, so a program with N calls gets N pairwise distinct
  return labels. The labels are unique among the call sites only: nothing keeps them
  apart from a label that the program itself declares.
\<close>

theorem return_labels_by_position:
  assumes ready: "call_ready s lp"
    and run: "main_translate (Suc (Suc m)) p s = Some (Inr (), s')"
  shows "\<exists>blocks. length blocks = length (stream_of p) \<and> asm_code s' = asm_code s @ concat blocks
     \<and> (\<forall>j<length (stream_of p). take 1 (stream_of p ! j) = [''call''] \<longrightarrow>
          (\<exists>mid. blocks ! j = ''// '' @ join '' '' (stream_of p ! j) @ [CHR 0x0A] @ mid
                      @ render_label lp (return_label (int j + 1))))
     \<and> (\<forall>i j. i < j \<longrightarrow> int i + 1 < int j + 1 \<and> return_label (int i + 1) \<noteq> return_label (int j + 1))
     \<and> card ((\<lambda>j. return_label (int j + 1)) ` {j. j < length (stream_of p) \<and> take 1 (stream_of p ! j) = [''call'']})
         = nat (occurrences ''call'' (stream_of p))"
proof -
  let ?stream = "stream_of p"
  define inv where "inv = (\<lambda>(pre :: string list list) st. call_ready st lp)"
  define R where "R = (\<lambda>(pre :: string list list) l b. take 1 l = [''call''] \<longrightarrow>
              (\<exists>mid. b = ''// '' @ join '' '' l @ [CHR 0x0A] @ mid
                          @ render_label lp (return_label (int (length pre) + 1))))"
  have step: "inv (pre @ [l]) st' \<and> (\<exists>b. asm_code st' = asm_code st @ b \<and> R pre l b)"
    if "inv pre st" "Translator l cc (int (length pre)) = Inr t" "translate (Suc (Suc m)) t st = Some (Inr (), st')"
    for pre l cc t st st'
    using call_step [of st lp l cc pre t m st'] that
    unfolding inv_def R_def by blast
  have inv0: "inv [] s" using ready by (simp add: inv_def)
  have run': "main_loop (Suc (Suc m)) (if snd p then ''Sys'' else [])
      (zip (map int [length ([] :: string list list)..<length ([] :: string list list) + length ?stream]) ?stream) s
        = Some (Inr (), s')"
    using run by (simp only: main_translate_stream)
  have "\<exists>blocks. length blocks = length ?stream \<and> asm_code s' = asm_code s @ concat blocks
        \<and> (\<forall>j<length ?stream. R ([] @ take j ?stream) (?stream ! j) (blocks ! j)) \<and> inv ([] @ ?stream) s'"
    by (rule main_loop_blocks [where inv = inv and R = R and pre = "[]" and n = "Suc (Suc m)", OF _ inv0 run'])
       (rule step; assumption)
  then obtain blocks where len: "length blocks = length ?stream"
    and out: "asm_code s' = asm_code s @ concat blocks"
    and Rs: "\<forall>j<length ?stream. R ([] @ take j ?stream) (?stream ! j) (blocks ! j)"
    by blast
  have 3: "\<forall>j<length ?stream. take 1 (?stream ! j) = [''call''] \<longrightarrow>
          (\<exists>mid. blocks ! j = ''// '' @ join '' '' (?stream ! j) @ [CHR 0x0A] @ mid
                      @ render_label lp (return_label (int j + 1)))"
    using Rs unfolding R_def by auto
  have 4: "\<forall>i j. i < j \<longrightarrow> int i + 1 < int j + 1 \<and> return_label (int i + 1) \<noteq> return_label (int j + 1)"
    by (auto dest: injD [OF return_label_inj])
  from len out 3 4 call_positions_card [of ?stream] show ?thesis by blast
qed

theorem return_labels_by_position_witness:
  "call_ready example_cls [Text ''('', Var ''var_1'', Text '')\<newline>'']
   \<and> map_option fst (main_translate 2 ([[''push'', ''constant'', ''1''], [''call'', ''F'', ''1'']], False) example_cls)
       = Some (Inr ())
   \<and> (\<exists>blocks mid. length blocks = 2
         \<and> asm_code (snd (the (main_translate 2 ([[''push'', ''constant'', ''1''], [''call'', ''F'', ''1'']], False) example_cls)))
             = concat blocks
         \<and> blocks ! 1 = ''// call F 1\<newline>'' @ mid @ ''(RETURN_2)\<newline>\<newline>'')"
proof -
  let ?lp = "[Text ''('', Var ''var_1'', Text '')\<newline>'']"
  let ?p = "([[''push'', ''constant'', ''1''], [''call'', ''F'', ''1'']], False)"
  let ?s' = "snd (the (main_translate 2 ?p example_cls))"
  have f1: "func_mappings example_cls ''call'' = Some H_call" by code_simp
  have f2: "func_mappings example_cls ''label'' = Some H_label_goto_if_goto" by code_simp
  have f3: "code_patterns example_cls ''_label'' = Some (template_text ?lp)" by code_simp
  have f4: "list_all (uses_only {''var_1''}) ?lp" by (simp add: uses_only_def brace_free_def)
  from f1 f2 f3 f4 have ready: "call_ready example_cls ?lp" by (simp only: call_ready_def)
  have ok: "map_option fst (main_translate 2 ?p example_cls) = Some (Inr ())" by code_simp
  have two: "Suc (Suc 0) = 2" by simp
  have run: "main_translate (Suc (Suc 0)) ?p example_cls = Some (Inr (), ?s')"
    unfolding two by (rule outcome_the [OF ok])
  have st: "stream_of ?p = [[''push'', ''constant'', ''1''], [''call'', ''F'', ''1'']]"
    by (simp add: stream_of_def)
  have rl: "render_label ?lp (return_label 2) = ''(RETURN_2)\<newline>\<newline>''" by code_simp
  from return_labels_by_position [OF ready run]
  obtain blocks where len: "length blocks = length (stream_of ?p)"
    and out: "asm_code ?s' = asm_code example_cls @ concat blocks"
    and blk: "\<forall>j<length (stream_of ?p). take 1 (stream_of ?p ! j) = [''call''] \<longrightarrow>
          (\<exists>mid. blocks ! j = ''// '' @ join '' '' (stream_of ?p ! j) @ [CHR 0x0A] @ mid
                      @ render_label ?lp (return_label (int j + 1)))"
    by blast
  have pre: "1 < length (stream_of ?p)" "take 1 (stream_of ?p ! 1) = [''call'']" by (simp_all add: st)
  from blk [rule_format, OF pre] obtain mid where
    "blocks ! 1 = ''// '' @ join '' '' (stream_of ?p ! 1) @ [CHR 0x0A] @ mid
                      @ render_label ?lp (return_label (int 1 + 1))"
    by blast
  then have b1: "blocks ! 1 = ''// call F 1\<newline>'' @ mid @ ''(RETURN_2)\<newline>\<newline>''"
    by (simp add: st rl)
  have l2: "length blocks = 2" using len by (simp add: st)
  have o: "asm_code ?s' = concat blocks" using out by (simp add: example_cls_asm)
  from l2 o b1 have "\<exists>blocks mid. length blocks = 2
         \<and> asm_code ?s' = concat blocks
         \<and> blocks ! 1 = ''// call F 1\<newline>'' @ mid @ ''(RETURN_2)\<newline>\<newline>''"
    by blast
  with ready ok show ?thesis by (intro conjI)
qed

text \<open>
  The claim as stated makes every return label globally unique and numbers the labels
  by a count of call sites. In the program \<^verbatim>\<open>label RETURN_2\<close>, \<^verbatim>\<open>call F 0\<close> the only call
  is at position 1: its label is \<^verbatim>\<open>RETURN_2\<close>, not the first of a count, and the output
  declares \<^verbatim>\<open>(RETURN_2)\<close> twice.
\<close>

theorem return_labels_counterexample:
  "map_option (label_lines \<circ> asm_code \<circ> snd)
      (main_translate 2 ([[''label'', ''RETURN_2''], [''call'', ''F'', ''0'']], False) example_cls)
     = Some [''(RETURN_2)'', ''(RETURN_2)'']"
  by code_simp

section \<open>Comparison labels\<close>

text \<open>
  C4 (as amended). The three comparison counters are independent and each is incremented
  exactly once per occurrence of its own operator, before the label is built. For every
  program that the driver translates without an error from fresh counters, whatever other
  instructions it holds: a comparison \<open>c\<close> at position \<open>j\<close> of the instruction stream
  contributes the block made of its comment line and the comparison pattern rendered with
  the name of \<open>c\<close> in upper case, its jump and the label index
  \<open>occurrences c (take j stream)\<close>, the number of earlier occurrences of \<open>c\<close> alone; so
  the n-th occurrence of an operator receives index n-1. At the end the counter of each
  operator is the number of its occurrences. Two occurrences of the same operator get
  different indices, rendered by different texts, so their labels never collide. The
  interleaving eq, gt, eq, lt, eq yields the indices 0, 0, 1, 0, 2.
\<close>

theorem comparison_label_index:
  assumes ready: "cmp_ready s raw"
    and fresh: "lt_eq_gt_counter s = lt_eq_gt_counter init_cls"
    and run: "main_translate (Suc n) p s = Some (Inr (), s')"
  shows "\<exists>blocks. length blocks = length (stream_of p) \<and> asm_code s' = asm_code s @ concat blocks
     \<and> (\<forall>j c jmp. j < length (stream_of p) \<and> c \<in> {''lt'', ''eq'', ''gt''} \<and> take 1 (stream_of p ! j) = [c]
                   \<and> jump_dict c = Some jmp \<longrightarrow>
          (\<exists>code. newline (format raw [''var_1'' \<mapsto> PStr (upper c), ''var_2'' \<mapsto> PStr jmp,
                                         ''var_3'' \<mapsto> PInt (occurrences c (take j (stream_of p)))]) = Inr code
                 \<and> blocks ! j = ''// '' @ join '' '' (stream_of p ! j) @ [CHR 0x0A] @ code))
     \<and> (\<forall>c\<in>{''lt'', ''eq'', ''gt''}. lt_eq_gt_counter s' c = Some (occurrences c (stream_of p)))
     \<and> (\<forall>i j c. i < j \<and> j < length (stream_of p) \<and> take 1 (stream_of p ! i) = [c] \<longrightarrow>
           occurrences c (take i (stream_of p)) < occurrences c (take j (stream_of p))
         \<and> py_str (PInt (occurrences c (take i (stream_of p))))
             \<noteq> py_str (PInt (occurrences c (take j (stream_of p)))))
     \<and> upper ''lt'' = ''LT'' \<and> upper ''eq'' = ''EQ'' \<and> upper ''gt'' = ''GT''"
proof -
  let ?stream = "stream_of p"
  define inv where "inv = (\<lambda>pre st. cmp_ready st raw \<and>
          lt_eq_gt_counter st = [''lt'' \<mapsto> occurrences ''lt'' pre, ''eq'' \<mapsto> occurrences ''eq'' pre,
                                  ''gt'' \<mapsto> occurrences ''gt'' pre])"
  define R where "R = (\<lambda>pre l b. \<forall>c jmp. c \<in> {''lt'', ''eq'', ''gt''} \<and> take 1 l = [c] \<and> jump_dict c = Some jmp \<longrightarrow>
               (\<exists>code. newline (format raw [''var_1'' \<mapsto> PStr (upper c), ''var_2'' \<mapsto> PStr jmp,
                                              ''var_3'' \<mapsto> PInt (occurrences c pre)]) = Inr code
                      \<and> b = ''// '' @ join '' '' l @ [CHR 0x0A] @ code))"
  have step: "inv (pre @ [l]) st' \<and> (\<exists>b. asm_code st' = asm_code st @ b \<and> R pre l b)"
    if "inv pre st" "Translator l cc (int (length pre)) = Inr t" "translate (Suc n) t st = Some (Inr (), st')"
    for pre l cc t st st'
    using cmp_step [of st raw pre l cc "int (length pre)" t n st'] that
    unfolding inv_def R_def by blast
  have inv0: "inv [] s"
    using ready fresh by (simp add: inv_def init_cls_def occurrences_def)
  have run': "main_loop (Suc n) (if snd p then ''Sys'' else [])
      (zip (map int [length ([] :: string list list)..<length ([] :: string list list) + length ?stream]) ?stream) s
        = Some (Inr (), s')"
    using run by (simp only: main_translate_stream)
  have "\<exists>blocks. length blocks = length ?stream \<and> asm_code s' = asm_code s @ concat blocks
        \<and> (\<forall>j<length ?stream. R ([] @ take j ?stream) (?stream ! j) (blocks ! j)) \<and> inv ([] @ ?stream) s'"
    by (rule main_loop_blocks [where inv = inv and R = R and pre = "[]" and n = "Suc n", OF _ inv0 run'])
       (rule step; assumption)
  then obtain blocks where len: "length blocks = length ?stream"
    and out: "asm_code s' = asm_code s @ concat blocks"
    and Rs: "\<forall>j<length ?stream. R ([] @ take j ?stream) (?stream ! j) (blocks ! j)"
    and inv': "inv ([] @ ?stream) s'"
    by blast
  have 3: "\<forall>j c jmp. j < length ?stream \<and> c \<in> {''lt'', ''eq'', ''gt''} \<and> take 1 (?stream ! j) = [c]
                   \<and> jump_dict c = Some jmp \<longrightarrow>
          (\<exists>code. newline (format raw [''var_1'' \<mapsto> PStr (upper c), ''var_2'' \<mapsto> PStr jmp,
                                         ''var_3'' \<mapsto> PInt (occurrences c (take j ?stream))]) = Inr code
                 \<and> blocks ! j = ''// '' @ join '' '' (?stream ! j) @ [CHR 0x0A] @ code)"
    using Rs unfolding R_def by auto
  have 4: "\<forall>c\<in>{''lt'', ''eq'', ''gt''}. lt_eq_gt_counter s' c = Some (occurrences c ?stream)"
    using inv' by (auto simp: inv_def)
  have 5: "\<forall>i j c. i < j \<and> j < length ?stream \<and> take 1 (?stream ! i) = [c] \<longrightarrow>
           occurrences c (take i ?stream) < occurrences c (take j ?stream)
         \<and> py_str (PInt (occurrences c (take i ?stream))) \<noteq> py_str (PInt (occurrences c (take j ?stream)))"
  proof (intro allI impI)
    fix i j c
    assume a: "i < j \<and> j < length ?stream \<and> take 1 (?stream ! i) = [c]"
    then have a1: "i < j" and a2: "j \<le> length ?stream" and a3: "take 1 (?stream ! i) = [c]"
      by simp_all
    have less: "occurrences c (take i ?stream) < occurrences c (take j ?stream)"
      by (rule occurrences_increase [OF a1 a2 a3])
    then have "str_int (occurrences c (take i ?stream)) \<noteq> str_int (occurrences c (take j ?stream))"
      by (auto dest: str_int_inj)
    with less show "occurrences c (take i ?stream) < occurrences c (take j ?stream)
         \<and> py_str (PInt (occurrences c (take i ?stream))) \<noteq> py_str (PInt (occurrences c (take j ?stream)))"
      by simp
  qed
  from len out 3 4 5 upper_cmp show ?thesis by blast
qed

theorem comparison_label_index_witness:
  "cmp_ready example_cls (concat (file_lines cmp_pattern))
   \<and> lt_eq_gt_counter example_cls = lt_eq_gt_counter init_cls
   \<and> map_option fst (main_translate 2 ([[''eq''], [''add''], [''eq'']], False) example_cls) = Some (Inr ())
   \<and> (\<exists>blocks. length blocks = 3
         \<and> asm_code (snd (the (main_translate 2 ([[''eq''], [''add''], [''eq'']], False) example_cls))) = concat blocks
         \<and> blocks ! 2 = ''// eq\<newline>@SP\<newline>AM=M-1\<newline>D=M\<newline>A=A-1\<newline>D=D-M\<newline>M=-1\<newline>@EQ_1\<newline>D;JEQ\<newline>@SP\<newline>A=M-1\<newline>M=0\<newline>(EQ_1)\<newline>\<newline>'')"
proof -
  let ?raw = "concat (file_lines cmp_pattern)"
  let ?p = "([[''eq''], [''add''], [''eq'']], False)"
  let ?s' = "snd (the (main_translate 2 ?p example_cls))"
  have ready: "cmp_ready example_cls ?raw" unfolding cmp_ready_def by code_simp
  have ok: "map_option fst (main_translate 2 ?p example_cls) = Some (Inr ())" by code_simp
  have two: "Suc 1 = 2" by simp
  have run: "main_translate (Suc 1) ?p example_cls = Some (Inr (), ?s')"
    unfolding two by (rule outcome_the [OF ok])
  have st: "stream_of ?p = [[''eq''], [''add''], [''eq'']]" by (simp add: stream_of_def)
  have occ: "occurrences ''eq'' (take 2 (stream_of ?p)) = 1" by (simp add: st occurrences_def)
  have f: "newline (format ?raw [''var_1'' \<mapsto> PStr (upper ''eq''), ''var_2'' \<mapsto> PStr ''JEQ'', ''var_3'' \<mapsto> PInt 1])
      = Inr ''@SP\<newline>AM=M-1\<newline>D=M\<newline>A=A-1\<newline>D=D-M\<newline>M=-1\<newline>@EQ_1\<newline>D;JEQ\<newline>@SP\<newline>A=M-1\<newline>M=0\<newline>(EQ_1)\<newline>\<newline>''"
    by code_simp
  have j: "jump_dict ''eq'' = Some ''JEQ''" by (simp add: jump_dict_def)
  from comparison_label_index [OF ready example_cls_counter run]
  obtain blocks where len: "length blocks = length (stream_of ?p)"
    and out: "asm_code ?s' = asm_code example_cls @ concat blocks"
    and blk: "\<forall>j c jmp. j < length (stream_of ?p) \<and> c \<in> {''lt'', ''eq'', ''gt''} \<and> take 1 (stream_of ?p ! j) = [c]
                   \<and> jump_dict c = Some jmp \<longrightarrow>
          (\<exists>code. newline (format ?raw [''var_1'' \<mapsto> PStr (upper c), ''var_2'' \<mapsto> PStr jmp,
                                         ''var_3'' \<mapsto> PInt (occurrences c (take j (stream_of ?p)))]) = Inr code
                 \<and> blocks ! j = ''// '' @ join '' '' (stream_of ?p ! j) @ [CHR 0x0A] @ code)"
    by blast
  have pre: "2 < length (stream_of ?p) \<and> ''eq'' \<in> {''lt'', ''eq'', ''gt''} \<and> take 1 (stream_of ?p ! 2) = [''eq'']
                   \<and> jump_dict ''eq'' = Some ''JEQ''"
    using j by (simp add: st)
  from blk [rule_format, OF pre] obtain code where
    c1: "newline (format ?raw [''var_1'' \<mapsto> PStr (upper ''eq''), ''var_2'' \<mapsto> PStr ''JEQ'',
                                         ''var_3'' \<mapsto> PInt (occurrences ''eq'' (take 2 (stream_of ?p)))]) = Inr code"
    and c2: "blocks ! 2 = ''// '' @ join '' '' (stream_of ?p ! 2) @ [CHR 0x0A] @ code"
    by blast
  from c1 have "code = ''@SP\<newline>AM=M-1\<newline>D=M\<newline>A=A-1\<newline>D=D-M\<newline>M=-1\<newline>@EQ_1\<newline>D;JEQ\<newline>@SP\<newline>A=M-1\<newline>M=0\<newline>(EQ_1)\<newline>\<newline>''"
    unfolding occ f by simp
  with c2 have b2: "blocks ! 2 = ''// eq\<newline>@SP\<newline>AM=M-1\<newline>D=M\<newline>A=A-1\<newline>D=D-M\<newline>M=-1\<newline>@EQ_1\<newline>D;JEQ\<newline>@SP\<newline>A=M-1\<newline>M=0\<newline>(EQ_1)\<newline>\<newline>''"
    by (simp add: st)
  have l3: "length blocks = 3" using len by (simp add: st)
  have o: "asm_code ?s' = concat blocks" using out by (simp add: example_cls_asm)
  from l3 o b2 have "\<exists>blocks. length blocks = 3
         \<and> asm_code ?s' = concat blocks
         \<and> blocks ! 2 = ''// eq\<newline>@SP\<newline>AM=M-1\<newline>D=M\<newline>A=A-1\<newline>D=D-M\<newline>M=-1\<newline>@EQ_1\<newline>D;JEQ\<newline>@SP\<newline>A=M-1\<newline>M=0\<newline>(EQ_1)\<newline>\<newline>''"
    by blast
  with ready example_cls_counter ok show ?thesis by (intro conjI)
qed

text \<open>
  The claim as stated gives the third \<^verbatim>\<open>eq\<close> of eq, gt, eq, lt, eq the index 0; the
  translator gives it 2.
\<close>

theorem comparison_indices_counterexample:
  "map_option (label_lines \<circ> asm_code \<circ> snd)
     (main_translate 2 ([[''eq''], [''gt''], [''eq''], [''lt''], [''eq'']], False) example_cls)
   = Some [''(EQ_0)'', ''(GT_0)'', ''(EQ_1)'', ''(LT_0)'', ''(EQ_2)'']"
  by code_simp

section \<open>Negative offsets\<close>

text \<open>
  C5 (as amended). No push or pop is rejected for a negative offset, whatever its origin:
  for a push or pop on one of the eight segments whose offset parses as a negative
  integer, \<^verbatim>\<open>_pop_push_helper\<close> succeeds, drops the first character of the offset and,
  for local, argument, this, that and pointer, records the sign as the operator
  \<^verbatim>\<open>-\<close>; and for every segment but static an instruction read from the source (with any
  class name and index) is translated exactly like the same instruction synthesized by
  the call and return expansion. There is no error for an invalid segment offset.
\<close>

theorem negative_offset_accepted:
  assumes l: "line t = c # seg # off # rest" and v: "py_int off = Inr v" and neg: "v < 0"
    and seg: "seg \<in> {''static'', ''temp'', ''pointer'', ''local'', ''argument'', ''this'', ''that'', ''constant''}"
  shows "pop_push_helper t = Inr (t \<lparr> pop_push_expr :=
           (if seg = ''static'' then [PStr (class_name t), PStr (drop 1 off), PNone]
            else if seg \<in> {''temp'', ''constant''} then [PStr (drop 1 off), PNone, PNone]
            else if seg = ''pointer'' then [PStr (drop 1 off), PStr ''-'', PNone]
            else [PStr (str_int (the (loc_dict seg))), PStr (drop 1 off), PStr ''-'']) \<rparr>)
    \<and> (cmd t \<in> {''pop'', ''push''} \<and> seg \<noteq> ''static'' \<and> func_mappings s (cmd t) = Some H_pop_push
        \<longrightarrow> translate (Suc n) (t \<lparr> class_name := cc, idx := i \<rparr>) s = translate (Suc n) t s)"
  using pop_push_helper_negative [OF l v neg seg] pop_push_source_internal [OF _ l]
  by blast

theorem negative_offset_accepted_witness:
  "py_int ''-1'' = Inr (- 1)
   \<and> pop_push_helper \<lparr> line = [''pop'', ''local'', ''-1''], class_name = [], cmd = ''pop'', idx = 0, pop_push_expr = [] \<rparr>
       = Inr \<lparr> line = [''pop'', ''local'', ''-1''], class_name = [], cmd = ''pop'', idx = 0,
               pop_push_expr = [PStr ''1'', PStr ''1'', PStr ''-''] \<rparr>
   \<and> func_mappings example_cls ''pop'' = Some H_pop_push
   \<and> translate 1 \<lparr> line = [''pop'', ''local'', ''-1''], class_name = ''Main'', cmd = ''pop'', idx = 7, pop_push_expr = [] \<rparr> example_cls
       = translate 1 \<lparr> line = [''pop'', ''local'', ''-1''], class_name = [], cmd = ''pop'', idx = 0, pop_push_expr = [] \<rparr> example_cls"
proof -
  let ?t = "\<lparr> line = [''pop'', ''local'', ''-1''], class_name = [], cmd = ''pop'', idx = 0, pop_push_expr = [] \<rparr>"
  have l: "line ?t = ''pop'' # ''local'' # ''-1'' # []" by simp
  have v: "py_int ''-1'' = Inr (- 1)" by code_simp
  have neg: "(- 1 :: int) < 0" by simp
  have seg: "''local'' \<in> {''static'', ''temp'', ''pointer'', ''local'', ''argument'', ''this'', ''that'', ''constant''}"
    by simp
  have fm: "func_mappings example_cls ''pop'' = Some H_pop_push" by code_simp
  have one: "str_int (the (loc_dict ''local'')) = ''1''" by code_simp
  note inst = negative_offset_accepted [OF l v neg seg, where s = example_cls and n = 0 and cc = "''Main''" and i = 7]
  from inst v fm one show ?thesis by (simp del: translate.simps)
qed

text \<open>
  The claim as stated makes \<^verbatim>\<open>pop local -1\<close> from the source fail; parsed from a source
  line and run through the driver it is translated without error.
\<close>

theorem negative_offset_counterexample:
  "vm_parser [''pop local -1''] ([], False) = Inr ([[''pop'', ''local'', ''-1'']], False)
   \<and> map_option fst (main_translate 2 ([[''pop'', ''local'', ''-1'']], False) example_cls) = Some (Inr ())
   \<and> map_option (asm_code \<circ> snd) (main_translate 2 ([[''pop'', ''local'', ''-1'']], False) example_cls)
       = Some ''// pop local -1\<newline>@1\<newline>D=M\<newline>@1\<newline>D=D-A\<newline>@R13\<newline>M=D\<newline>@SP\<newline>AM=M-1\<newline>D=M\<newline>@R13\<newline>A=M\<newline>M=D\<newline>\<newline>''"
  by code_simp

section \<open>The scratch cells of return\<close>

text \<open>
  C6 (as amended). The scratch locations of the \<^verbatim>\<open>return\<close> expansion are fixed: the
  return address is kept in the cell of pointer offset 12 (address 15) and the stack
  pointer in the cell of pointer offset 11 (address 14). They are not reserved: a push or
  pop on \<^verbatim>\<open>pointer\<close> with offset 11 or 12 that comes from the source is translated
  exactly like the internal one, so it resolves to the same cell.
\<close>

theorem return_scratch_cells:
  "return_cmds ! 1 = [''pop'', ''pointer'', ''12'']
   \<and> return_cmds ! 6 = [''pop'', ''pointer'', ''11'']
   \<and> return_cmds ! 15 = [''push'', ''pointer'', ''11'']
   \<and> pointer_cell ''12'' = Inr ret_addr \<and> pointer_cell ''11'' = Inr sp_addr
   \<and> (c \<in> {''pop'', ''push''} \<and> off \<in> {''11'', ''12''} \<and> func_mappings s c = Some H_pop_push \<longrightarrow>
        (\<exists>src int. Translator [c, ''pointer'', off] cc i = Inr src
           \<and> Translator [c, ''pointer'', off] [] 0 = Inr int
           \<and> translate (Suc n) src s = translate (Suc n) int s))"
proof -
  have cmds: "return_cmds ! 1 = [''pop'', ''pointer'', ''12'']" "return_cmds ! 6 = [''pop'', ''pointer'', ''11'']"
    "return_cmds ! 15 = [''push'', ''pointer'', ''11'']"
    by (simp_all add: return_cmds_def ret_addr_def sp_addr_def str_int_small)
  have cells: "pointer_cell ''12'' = Inr ret_addr" "pointer_cell ''11'' = Inr sp_addr"
    using pointer_cells by (simp_all add: ret_addr_def sp_addr_def)
  have same: "\<exists>src int. Translator [c, ''pointer'', off] cc i = Inr src
           \<and> Translator [c, ''pointer'', off] [] 0 = Inr int
           \<and> translate (Suc n) src s = translate (Suc n) int s"
    if c: "c \<in> {''pop'', ''push''}" and fm: "func_mappings s c = Some H_pop_push"
  proof -
    let ?int = "\<lparr> line = [c, ''pointer'', off], class_name = [], cmd = c, idx = 0, pop_push_expr = [] \<rparr>"
    have 1: "cmd ?int \<in> {''pop'', ''push''}" using c by simp
    have 2: "line ?int = c # ''pointer'' # off # []" by simp
    have 3: "''pointer'' \<noteq> ''static''" by simp
    have 4: "func_mappings s (cmd ?int) = Some H_pop_push" using fm by simp
    from pop_push_source_internal [OF 1 2 3 4, where n = n and cc = cc and i = i]
    show ?thesis by (simp add: Translator_def del: translate.simps)
  qed
  from cmds cells same show ?thesis by blast
qed

theorem return_scratch_cells_witness:
  "func_mappings example_cls ''pop'' = Some H_pop_push
   \<and> translate 1 \<lparr> line = [''pop'', ''pointer'', ''12''], class_name = ''Main'', cmd = ''pop'', idx = 3, pop_push_expr = [] \<rparr> example_cls
     = translate 1 \<lparr> line = [''pop'', ''pointer'', ''12''], class_name = [], cmd = ''pop'', idx = 0, pop_push_expr = [] \<rparr> example_cls"
proof -
  have fm: "func_mappings example_cls ''pop'' = Some H_pop_push" by code_simp
  note inst = return_scratch_cells [where c = "''pop''" and off = "''12''" and s = example_cls and cc = "''Main''" and i = 3 and n = 0]
  from inst fm show ?thesis by (simp add: Translator_def del: translate.simps)
qed

text \<open>
  The claim as stated keeps source-level pointer accesses away from the scratch cells; a
  source-level \<^verbatim>\<open>pop pointer 12\<close> is accepted and emits the code of the internal store
  to the return-address cell.
\<close>

theorem return_scratch_counterexample:
  "[''pop'', ''pointer'', ''12''] \<in> set return_cmds
   \<and> pointer_cell ''12'' = Inr 15
   \<and> map_option fst (main_translate 2 ([[''pop'', ''pointer'', ''12'']], False) example_cls) = Some (Inr ())
   \<and> map_option (asm_code \<circ> snd) (main_translate 2 ([[''pop'', ''pointer'', ''12'']], False) example_cls)
       = map_option (asm_code \<circ> snd) (run_lines (translate 1) [[''pop'', ''pointer'', ''12'']] example_cls)"
  by code_simp

section \<open>Loading\<close>

text \<open>
  C7 (as amended). Template loading checks neither that every opcode has a template nor
  that two pattern files claim the same opcode: its only failures are the
  \<^verbatim>\<open>AttributeError\<close> of a pattern file whose name is not an attribute of the class and
  the \<^verbatim>\<open>IndexError\<close> of reading an empty line or name. After loading the two tables are
  read-only: neither the translation of an instruction nor the loop of the driver changes
  an entry.
\<close>

theorem loading_unchecked:
  "fst (create_mappings other files s0) \<in> {Inr (), Inl AttributeError, Inl IndexError}
   \<and> (translate n t s = Some (r, s') \<longrightarrow>
         code_patterns s' = code_patterns s \<and> func_mappings s' = func_mappings s)
   \<and> (main_loop n cc ps s = Some (r, s') \<longrightarrow>
         code_patterns s' = code_patterns s \<and> func_mappings s' = func_mappings s)"
  using create_mappings_errors translate_tables main_loop_tables by blast

theorem loading_unchecked_witness:
  "fst (create_mappings (\<lambda>_. False) [(''notes.txt'', [''x''])] init_cls) = Inl AttributeError
   \<and> map_option fst (translate 2 \<lparr> line = [''add''], class_name = [], cmd = ''add'', idx = 0, pop_push_expr = [] \<rparr> example_cls)
       = Some (Inr ())
   \<and> map_option (\<lambda>p. code_patterns (snd p) ''_goto'')
        (translate 2 \<lparr> line = [''add''], class_name = [], cmd = ''add'', idx = 0, pop_push_expr = [] \<rparr> example_cls)
       = Some (code_patterns example_cls ''_goto'')"
proof -
  let ?t = "\<lparr> line = [''add''], class_name = [], cmd = ''add'', idx = 0, pop_push_expr = [] \<rparr>"
  have a: "fst (create_mappings (\<lambda>_. False) [(''notes.txt'', [''x''])] init_cls) = Inl AttributeError"
    by code_simp
  have b: "map_option fst (translate 2 ?t example_cls) = Some (Inr ())" by code_simp
  then obtain s' where s': "translate 2 ?t example_cls = Some (Inr (), s')"
    by (cases "translate 2 ?t example_cls") auto
  from loading_unchecked [where n = 2 and t = ?t and s = example_cls and r = "Inr ()" and s' = s'] s'
  have "code_patterns s' = code_patterns example_cls" by blast
  with s' have "map_option (\<lambda>p. code_patterns (snd p) ''_goto'') (translate 2 ?t example_cls)
       = Some (code_patterns example_cls ''_goto'')" by simp
  with a b show ?thesis by blast
qed

text \<open>
  The claim as stated has loading validate coverage and collisions. Loading an empty
  directory succeeds and leaves \<^verbatim>\<open>add\<close> without a method (the translation fails later,
  with \<^verbatim>\<open>KeyError\<close>); and a second file \<^verbatim>\<open>_label pop.txt\<close> silently rebinds the
  command \<^verbatim>\<open>label\<close> of \<^verbatim>\<open>_label.txt\<close> to \<^verbatim>\<open>_pop_push\<close>.
\<close>

theorem loading_validation_counterexample:
  "create_mappings (\<lambda>_. False) [] init_cls = (Inr (), init_cls)
   \<and> map_option fst (translate 2 \<lparr> line = [''add''], class_name = [], cmd = ''add'', idx = 0, pop_push_expr = [] \<rparr> init_cls)
       = Some (Inl KeyError)
   \<and> fst (create_mappings (\<lambda>_. False)
         [(''_label.txt'', [''({var_1})'']), (''_label pop.txt'', [''M=D''])] init_cls) = Inr ()
   \<and> func_mappings (snd (create_mappings (\<lambda>_. False)
         [(''_label.txt'', [''({var_1})'']), (''_label pop.txt'', [''M=D''])] init_cls)) ''label'' = Some H_pop_push"
proof -
  have 1: "create_mappings (\<lambda>_. False) [] init_cls = (Inr (), init_cls)" by simp
  have 2: "map_option fst (translate 2 \<lparr> line = [''add''], class_name = [], cmd = ''add'', idx = 0, pop_push_expr = [] \<rparr> init_cls)
       = Some (Inl KeyError)" by code_simp
  have 3: "fst (create_mappings (\<lambda>_. False)
         [(''_label.txt'', [''({var_1})'']), (''_label pop.txt'', [''M=D''])] init_cls) = Inr ()" by code_simp
  have 4: "func_mappings (snd (create_mappings (\<lambda>_. False)
         [(''_label.txt'', [''({var_1})'']), (''_label pop.txt'', [''M=D''])] init_cls)) ''label'' = Some H_pop_push"
    by code_simp
  from 1 2 3 4 show ?thesis by blast
qed

section \<open>The output grows by blocks\<close>

text \<open>
  C8 (as amended). The assembly output only ever grows by appending: every call of
  \<open>translate\<close> that returns, with or without an error, leaves the earlier output as a
  prefix and appends one contiguous block that starts with the descriptive comment line
  of the instruction (for every opcode except \<^verbatim>\<open>label\<close>). For a successful instruction
  of a non-expanding method the rest of the block is the code that the method returned
  for this instruction and the pattern loaded for it, and the method itself writes nothing. For
  \<^verbatim>\<open>function\<close>, \<^verbatim>\<open>call\<close> and \<^verbatim>\<open>return\<close> the block is the instruction's own comment
  line, then the blocks of all its synthesized sub-instructions in order, then, for
  \<^verbatim>\<open>return\<close> only, the rendered \<^verbatim>\<open>_return\<close> pattern.
\<close>

theorem output_blocks:
  assumes tr: "translate (Suc n) t s = Some (r, s')"
  shows "\<exists>b. asm_code s' = asm_code s @ comment_of t @ b
    \<and> (\<forall>h. func_mappings s (cmd t) = Some h \<and> \<not> expanding h \<and> r = Inr () \<longrightarrow>
          (\<exists>pn raw t' s1. pattern_name_of t h = Inr pn \<and> code_patterns s pn = Some raw
             \<and> (if cmd t \<in> {''pop'', ''push''} then pop_push_helper t else Inr t) = Inr t'
             \<and> apply_handler (translate n) h t' raw (s \<lparr> asm_code := asm_code s @ comment_of t \<rparr>)
                   = Some (Inr b, s1)
             \<and> asm_code s1 = asm_code s @ comment_of t
             \<and> s' = s1 \<lparr> asm_code := asm_code s1 @ b \<rparr>))
    \<and> (\<forall>h. func_mappings s (cmd t) = Some h \<and> expanding h \<and> cmd t = drop 1 (handler_name h) \<and> r = Inr () \<longrightarrow>
          (\<exists>cmds tail.
              (h = H_function \<longrightarrow> function_cmds t = Inr cmds \<and> tail = [])
            \<and> (h = H_call \<longrightarrow> call_cmds t = Inr cmds \<and> tail = [])
            \<and> (h = H_return \<longrightarrow> cmds = return_cmds \<and>
                  (\<exists>raw. code_patterns s ''_return'' = Some raw
                     \<and> newline (format raw [''var_1'' \<mapsto> PInt ret_addr]) = Inr tail))
            \<and> length (blocks_of (translate n) cmds (s \<lparr> asm_code := asm_code s @ comment_of t \<rparr>)) = length cmds
            \<and> b = concat (blocks_of (translate n) cmds (s \<lparr> asm_code := asm_code s @ comment_of t \<rparr>)) @ tail))"
proof -
  let ?s0 = "s \<lparr> asm_code := asm_code s @ comment_of t \<rparr>"
  have tb: "translate_body (translate n) t ?s0 = Some (r, s')"
    using tr by (simp only: translate.simps comm_state)
  from translate_body_appends [OF translate_appends tb]
  obtain b where b: "asm_code s' = asm_code s @ comment_of t @ b" by auto
  have simple: "\<forall>h. func_mappings s (cmd t) = Some h \<and> \<not> expanding h \<and> r = Inr () \<longrightarrow>
          (\<exists>pn raw t' s1. pattern_name_of t h = Inr pn \<and> code_patterns s pn = Some raw
             \<and> (if cmd t \<in> {''pop'', ''push''} then pop_push_helper t else Inr t) = Inr t'
             \<and> apply_handler (translate n) h t' raw ?s0 = Some (Inr b, s1)
             \<and> asm_code s1 = asm_code s @ comment_of t
             \<and> s' = s1 \<lparr> asm_code := asm_code s1 @ b \<rparr>)"
  proof (intro allI impI)
    fix h
    assume a: "func_mappings s (cmd t) = Some h \<and> \<not> expanding h \<and> r = Inr ()"
    then have h1: "func_mappings s (cmd t) = Some h" and h2: "\<not> expanding h" and h3: "r = Inr ()"
      by blast+
    have tb': "translate_body (translate n) t ?s0 = Some (Inr (), s')" using tb h3 by simp
    from translate_body_success [OF tb']
    obtain h' pn t' raw code s1 where h': "func_mappings ?s0 (cmd t) = Some h'"
      and pn: "pattern_name_of t h' = Inr pn"
      and t': "(if cmd t \<in> {''pop'', ''push''} then pop_push_helper t else Inr t) = Inr t'"
      and cp: "code_patterns ?s0 pn = Some raw"
      and ah: "apply_handler (translate n) h' t' raw ?s0 = Some (Inr code, s1)"
      and s': "s' = s1 \<lparr> asm_code := asm_code s1 @ code \<rparr>"
      by blast
    have hh: "h' = h" using h' h1 by simp
    have cp': "code_patterns s pn = Some raw" using cp by simp
    have "s1 = ?s0 \<or> (\<exists>r0. lt_eq_gt t' raw ?s0 = (r0, s1))"
      using ah h2 unfolding hh by (cases h) (auto simp: apply_handler_def expanding_def)
    then have "asm_code s1 = asm_code ?s0"
      using lt_eq_gt_tables by auto
    then have a1: "asm_code s1 = asm_code s @ comment_of t" by simp
    have cb: "code = b" using s' b a1 by simp
    from pn [unfolded hh] cp' t' ah [unfolded hh cb] a1 s' [unfolded cb]
    show "\<exists>pn raw t' s1. pattern_name_of t h = Inr pn \<and> code_patterns s pn = Some raw
             \<and> (if cmd t \<in> {''pop'', ''push''} then pop_push_helper t else Inr t) = Inr t'
             \<and> apply_handler (translate n) h t' raw ?s0 = Some (Inr b, s1)
             \<and> asm_code s1 = asm_code s @ comment_of t
             \<and> s' = s1 \<lparr> asm_code := asm_code s1 @ b \<rparr>"
      by blast
  qed
  have expand: "\<forall>h. func_mappings s (cmd t) = Some h \<and> expanding h \<and> cmd t = drop 1 (handler_name h) \<and> r = Inr () \<longrightarrow>
          (\<exists>cmds tail.
              (h = H_function \<longrightarrow> function_cmds t = Inr cmds \<and> tail = [])
            \<and> (h = H_call \<longrightarrow> call_cmds t = Inr cmds \<and> tail = [])
            \<and> (h = H_return \<longrightarrow> cmds = return_cmds \<and>
                  (\<exists>raw. code_patterns s ''_return'' = Some raw
                     \<and> newline (format raw [''var_1'' \<mapsto> PInt ret_addr]) = Inr tail))
            \<and> length (blocks_of (translate n) cmds ?s0) = length cmds
            \<and> b = concat (blocks_of (translate n) cmds ?s0) @ tail)"
  proof (intro allI impI)
    fix h
    assume a: "func_mappings s (cmd t) = Some h \<and> expanding h \<and> cmd t = drop 1 (handler_name h) \<and> r = Inr ()"
    then have h1: "func_mappings s (cmd t) = Some h" and h2: "expanding h"
      and h3: "cmd t = drop 1 (handler_name h)" and h4: "r = Inr ()"
      by blast+
    have tb': "translate_body (translate n) t ?s0 = Some (Inr (), s')" using tb h4 by simp
    have fm: "func_mappings ?s0 (cmd t) = Some h" using h1 by simp
    from expanding_block [OF tb' fm h2 h3 translate_appends] b
    show "\<exists>cmds tail.
              (h = H_function \<longrightarrow> function_cmds t = Inr cmds \<and> tail = [])
            \<and> (h = H_call \<longrightarrow> call_cmds t = Inr cmds \<and> tail = [])
            \<and> (h = H_return \<longrightarrow> cmds = return_cmds \<and>
                  (\<exists>raw. code_patterns s ''_return'' = Some raw
                     \<and> newline (format raw [''var_1'' \<mapsto> PInt ret_addr]) = Inr tail))
            \<and> length (blocks_of (translate n) cmds ?s0) = length cmds
            \<and> b = concat (blocks_of (translate n) cmds ?s0) @ tail"
      by auto
  qed
  show ?thesis
    apply (rule exI [where x = b])
    apply (rule conjI, rule b)
    apply (rule conjI, rule simple)
    apply (rule expand)
    done
qed

theorem output_blocks_witness:
  "map_option fst (translate 2 \<lparr> line = [''return''], class_name = ''Main'', cmd = ''return'', idx = 9, pop_push_expr = [] \<rparr> example_cls)
     = Some (Inr ())
   \<and> length (blocks_of (translate 1) return_cmds (example_cls \<lparr> asm_code := ''// return\<newline>'' \<rparr>)) = 17
   \<and> map_option (asm_code \<circ> snd)
       (translate 2 \<lparr> line = [''return''], class_name = ''Main'', cmd = ''return'', idx = 9, pop_push_expr = [] \<rparr> example_cls)
     = Some (''// return\<newline>''
             @ concat (blocks_of (translate 1) return_cmds (example_cls \<lparr> asm_code := ''// return\<newline>'' \<rparr>))
             @ ''@15\<newline>A=M\<newline>0;JMP\<newline>\<newline>'')"
proof -
  let ?t = "\<lparr> line = [''return''], class_name = ''Main'', cmd = ''return'', idx = 9, pop_push_expr = [] \<rparr>"
  let ?raw = "a_instr ''{var_1}\<newline>A=M\<newline>0;JMP\<newline>''"
  let ?s0 = "example_cls \<lparr> asm_code := ''// return\<newline>'' \<rparr>"
  have ok: "map_option fst (translate 2 ?t example_cls) = Some (Inr ())" by code_simp
  have run: "translate (Suc 1) ?t example_cls = Some (Inr (), snd (the (translate 2 ?t example_cls)))"
  proof -
    have two: "Suc 1 = 2" by simp
    show ?thesis unfolding two by (rule outcome_the [OF ok])
  qed
  have fm: "func_mappings example_cls (cmd ?t) = Some H_return" by code_simp
  have cp: "code_patterns example_cls ''_return'' = Some ?raw" by code_simp
  have tl: "newline (format ?raw [''var_1'' \<mapsto> PInt ret_addr]) = Inr ''@15\<newline>A=M\<newline>0;JMP\<newline>\<newline>''"
    by code_simp
  have co: "comment_of ?t = ''// return\<newline>''" by (simp add: comment_of_def)
  have s0: "example_cls \<lparr> asm_code := asm_code example_cls @ comment_of ?t \<rparr> = ?s0"
    by (simp add: example_cls_asm co)
  have ex: "expanding H_return" "cmd ?t = drop 1 (handler_name H_return)"
    by (simp_all add: expanding_def)
  from output_blocks [OF run] obtain b where
    b: "asm_code (snd (the (translate 2 ?t example_cls))) = asm_code example_cls @ comment_of ?t @ b"
    and str: "\<forall>h. func_mappings example_cls (cmd ?t) = Some h \<and> expanding h \<and> cmd ?t = drop 1 (handler_name h) \<and> (Inr () :: error + unit) = Inr () \<longrightarrow>
          (\<exists>cmds tail.
              (h = H_function \<longrightarrow> function_cmds ?t = Inr cmds \<and> tail = [])
            \<and> (h = H_call \<longrightarrow> call_cmds ?t = Inr cmds \<and> tail = [])
            \<and> (h = H_return \<longrightarrow> cmds = return_cmds \<and>
                  (\<exists>raw. code_patterns example_cls ''_return'' = Some raw
                     \<and> newline (format raw [''var_1'' \<mapsto> PInt ret_addr]) = Inr tail))
            \<and> length (blocks_of (translate 1) cmds (example_cls \<lparr> asm_code := asm_code example_cls @ comment_of ?t \<rparr>)) = length cmds
            \<and> b = concat (blocks_of (translate 1) cmds (example_cls \<lparr> asm_code := asm_code example_cls @ comment_of ?t \<rparr>)) @ tail)"
    by (elim exE conjE) (rule that, assumption+)
  from str fm ex obtain tail raw where
    raw: "code_patterns example_cls ''_return'' = Some raw" "newline (format raw [''var_1'' \<mapsto> PInt ret_addr]) = Inr tail"
    and len: "length (blocks_of (translate 1) return_cmds (example_cls \<lparr> asm_code := asm_code example_cls @ comment_of ?t \<rparr>)) = length return_cmds"
    and bb: "b = concat (blocks_of (translate 1) return_cmds (example_cls \<lparr> asm_code := asm_code example_cls @ comment_of ?t \<rparr>)) @ tail"
    by blast
  have tail: "tail = ''@15\<newline>A=M\<newline>0;JMP\<newline>\<newline>''"
    using raw cp tl by simp
  have n17: "length return_cmds = 17" by (simp add: return_cmds_def)
  have out: "map_option (asm_code \<circ> snd) (translate 2 ?t example_cls)
     = Some (''// return\<newline>'' @ concat (blocks_of (translate 1) return_cmds ?s0) @ ''@15\<newline>A=M\<newline>0;JMP\<newline>\<newline>'')"
  proof -
    have "map_option (asm_code \<circ> snd) (translate 2 ?t example_cls)
        = Some (asm_code (snd (the (translate 2 ?t example_cls))))"
      by (rule outcome_asm [OF ok])
    also have "asm_code (snd (the (translate 2 ?t example_cls)))
        = ''// return\<newline>'' @ concat (blocks_of (translate 1) return_cmds ?s0) @ ''@15\<newline>A=M\<newline>0;JMP\<newline>\<newline>''"
      using b bb tail s0 co example_cls_asm by simp
    finally show ?thesis .
  qed
  from ok len n17 s0 out show ?thesis by simp
qed

lemma return_example_output:
  "map_option (asm_code \<circ> snd)
       (translate 2 \<lparr> line = [''return''], class_name = ''Main'', cmd = ''return'', idx = 9, pop_push_expr = [] \<rparr> example_cls)
     = Some (''// return\<newline>''
             @ concat (blocks_of (translate 1) return_cmds (example_cls \<lparr> asm_code := ''// return\<newline>'' \<rparr>))
             @ ''@15\<newline>A=M\<newline>0;JMP\<newline>\<newline>'')"
proof -
  let ?t = "\<lparr> line = [''return''], class_name = ''Main'', cmd = ''return'', idx = 9, pop_push_expr = [] \<rparr>"
  let ?raw = "a_instr ''{var_1}\<newline>A=M\<newline>0;JMP\<newline>''"
  let ?s0 = "example_cls \<lparr> asm_code := ''// return\<newline>'' \<rparr>"
  let ?s' = "snd (the (translate 2 ?t example_cls))"
  have ok: "map_option fst (translate 2 ?t example_cls) = Some (Inr ())" by code_simp
  have two: "2 = Suc 1" by simp
  have co: "comment_of ?t = ''// return\<newline>''" by (simp add: comment_of_def)
  have s0: "example_cls \<lparr> asm_code := asm_code example_cls @ comment_of ?t \<rparr> = ?s0"
    by (simp add: example_cls_asm co)
  have "translate (Suc 1) ?t example_cls = Some (Inr (), ?s')"
    using outcome_the [OF ok] unfolding two .
  then have tb: "translate_body (translate 1) ?t ?s0 = Some (Inr (), ?s')"
    by (simp only: translate.simps comm_state s0)
  have fm: "func_mappings ?s0 (cmd ?t) = Some H_return"
  proof -
    have "func_mappings example_cls ''return'' = Some H_return" by code_simp
    then show ?thesis by simp
  qed
  have cp: "code_patterns ?s0 ''_return'' = Some ?raw"
  proof -
    have "code_patterns example_cls ''_return'' = Some ?raw" by code_simp
    then show ?thesis by simp
  qed
  have tl: "newline (format ?raw [''var_1'' \<mapsto> PInt ret_addr]) = Inr ''@15\<newline>A=M\<newline>0;JMP\<newline>\<newline>''"
    by code_simp
  have ex: "expanding H_return" "cmd ?t = drop 1 (handler_name H_return)"
    by (simp_all add: expanding_def)
  from expanding_block [OF tb fm ex translate_appends] cp tl
  have "asm_code ?s' = asm_code ?s0 @ concat (blocks_of (translate 1) return_cmds ?s0)
          @ ''@15\<newline>A=M\<newline>0;JMP\<newline>\<newline>''"
    by auto
  with outcome_asm [OF ok] show ?thesis by simp
qed

text \<open>
  The claim as stated makes the block of an expansion opcode the concatenation of the
  blocks of its sub-instructions. The block of \<^verbatim>\<open>return\<close> is more than that: its own
  comment line comes first and the jump through the return-address cell comes last.
\<close>

theorem output_blocks_counterexample:
  "map_option (asm_code \<circ> snd)
       (translate 2 \<lparr> line = [''return''], class_name = ''Main'', cmd = ''return'', idx = 9, pop_push_expr = [] \<rparr> example_cls)
     \<noteq> Some (concat (blocks_of (translate 1) return_cmds (example_cls \<lparr> asm_code := ''// return\<newline>'' \<rparr>)))
   \<and> map_option (asm_code \<circ> snd)
       (translate 2 \<lparr> line = [''return''], class_name = ''Main'', cmd = ''return'', idx = 9, pop_push_expr = [] \<rparr> example_cls)
     = Some (''// return\<newline>''
             @ concat (blocks_of (translate 1) return_cmds (example_cls \<lparr> asm_code := ''// return\<newline>'' \<rparr>))
             @ ''@15\<newline>A=M\<newline>0;JMP\<newline>\<newline>'')"
proof -
  let ?M = "map_option (asm_code \<circ> snd)
       (translate 2 \<lparr> line = [''return''], class_name = ''Main'', cmd = ''return'', idx = 9, pop_push_expr = [] \<rparr> example_cls)"
  let ?C = "concat (blocks_of (translate 1) return_cmds (example_cls \<lparr> asm_code := ''// return\<newline>'' \<rparr>))"
  let ?A = "''// return\<newline>'' @ ?C @ ''@15\<newline>A=M\<newline>0;JMP\<newline>\<newline>''"
  have ne: "x @ c @ y \<noteq> c" if "x \<noteq> []" for x c y :: string
  proof
    assume "x @ c @ y = c"
    then have "length (x @ c @ y) = length c" by (rule arg_cong)
    with that show False by simp
  qed
  have neq: "?A \<noteq> ?C" by (rule ne) simp
  have eq: "?M = Some ?A" by (rule return_example_output)
  have "Some ?A \<noteq> Some ?C" using neq by (simp only: option.inject not_False_eq_True)
  then have "?M \<noteq> Some ?C" unfolding eq .
  then show ?thesis using eq by (rule conjI)
qed

section \<open>The depth of the expansion\<close>

text \<open>
  C9. Every instruction synthesized by the expansion of \<^verbatim>\<open>function\<close>, \<^verbatim>\<open>call\<close> or
  \<^verbatim>\<open>return\<close> has a command among label, push, pop, goto, add and sub, never one of the
  three expanding commands. With the method table that loading builds (an expanding method
  is bound to its own command only, and translation never changes the table), the
  recursion between \<open>translate\<close> and the expanding methods is therefore at most one call
  deep: two nested calls of \<open>translate\<close> suffice for every instruction and every state,
  and a larger bound gives the same result.
\<close>

theorem expansion_depth_one:
  assumes load: "create_mappings other files init_cls = (r0, s0)"
    and same: "func_mappings s = func_mappings s0"
  shows "(\<forall>cmds. function_cmds t = Inr cmds \<or> call_cmds t = Inr cmds \<or> cmds = return_cmds \<longrightarrow>
            (\<forall>l\<in>set cmds. \<exists>c r. l = c # r \<and> c \<in> {''label'', ''push'', ''pop'', ''goto'', ''add'', ''sub''}))
    \<and> (\<exists>r. translate 2 t s = Some r \<and> (\<forall>n. translate (Suc (Suc n)) t s = Some r))
    \<and> (\<forall>r s'. translate 2 t s = Some (r, s') \<longrightarrow> func_mappings s' = func_mappings s0)"
proof -
  have own: "own_command (func_mappings s)"
    using create_mappings_own [OF init_own load] same by simp
  have sub: "\<forall>l\<in>set cmds. \<exists>c r. l = c # r \<and> c \<in> {''label'', ''push'', ''pop'', ''goto'', ''add'', ''sub''}"
    if "function_cmds t = Inr cmds \<or> call_cmds t = Inr cmds \<or> cmds = return_cmds" for cmds
    using that function_cmds_base [of t cmds] call_cmds_base [of t cmds] return_cmds_base
    unfolding base_line_def base_commands_def by blast
  have two: "(2::nat) = Suc (Suc 0)" by simp
  from translate_depth [OF own, of 0 t] obtain r where r: "translate (Suc (Suc 0)) t s = Some r"
    by blast
  have all: "translate (Suc (Suc n)) t s = Some r" for n
    using translate_depth [OF own, of 0 t n] r by auto
  have keep: "func_mappings s' = func_mappings s0" if "translate 2 t s = Some (r', s')" for r' s'
    using translate_tables [OF that] same by simp
  from sub r all keep show ?thesis unfolding two by blast
qed

theorem expansion_depth_one_witness:
  "create_mappings (\<lambda>_. False) example_patterns init_cls = (Inr (), example_cls)
   \<and> map_option fst (translate 2 \<lparr> line = [''call'', ''Foo'', ''2''], class_name = ''Main'', cmd = ''call'', idx = 4, pop_push_expr = [] \<rparr> example_cls)
       = Some (Inr ())
   \<and> translate 5 \<lparr> line = [''call'', ''Foo'', ''2''], class_name = ''Main'', cmd = ''call'', idx = 4, pop_push_expr = [] \<rparr> example_cls
       = translate 2 \<lparr> line = [''call'', ''Foo'', ''2''], class_name = ''Main'', cmd = ''call'', idx = 4, pop_push_expr = [] \<rparr> example_cls
   \<and> map_option fst (translate 1 \<lparr> line = [''call'', ''Foo'', ''2''], class_name = ''Main'', cmd = ''call'', idx = 4, pop_push_expr = [] \<rparr> example_cls)
       = None"
proof -
  let ?t = "\<lparr> line = [''call'', ''Foo'', ''2''], class_name = ''Main'', cmd = ''call'', idx = 4, pop_push_expr = [] \<rparr>"
  have ok: "fst (create_mappings (\<lambda>_. False) example_patterns init_cls) = Inr ()" by code_simp
  have load: "create_mappings (\<lambda>_. False) example_patterns init_cls = (Inr (), example_cls)"
    using ok by (simp add: example_cls_def prod_eq_iff)
  from expansion_depth_one [OF load refl, of ?t]
  obtain r where r: "translate 2 ?t example_cls = Some r" "\<forall>n. translate (Suc (Suc n)) ?t example_cls = Some r"
    by blast
  have five: "(5::nat) = Suc (Suc 3)" by simp
  have "translate (Suc (Suc 3)) ?t example_cls = Some r" using r(2) by blast
  then have eq: "translate 5 ?t example_cls = translate 2 ?t example_cls"
    unfolding five using r(1) by (simp del: translate.simps)
  have fst: "map_option fst (translate 2 ?t example_cls) = Some (Inr ())" by code_simp
  have one: "map_option fst (translate 1 ?t example_cls) = None"
    by code_simp
  from load eq fst one show ?thesis by blast
qed

section \<open>A push of a token that is not a number\<close>

text \<open>
  C10. A \<^verbatim>\<open>push constant T\<close> whose token \<open>T\<close> is not parseable as an integer (such as
  the \<^verbatim>\<open>RETURN_n\<close> token of the call expansion) is translated without failure: the
  token counts as non-negative and is kept unchanged, and every \<^verbatim>\<open>var_1\<close> placeholder
  of the pattern is replaced by \<open>T\<close> verbatim. The pattern is any text made of
  brace-free pieces and the placeholders \<^verbatim>\<open>var_1\<close>, \<^verbatim>\<open>var_2\<close>, \<^verbatim>\<open>var_3\<close>.
\<close>

theorem push_constant_token:
  assumes T: "py_int T = Inl e"
    and t: "Translator [''push'', ''constant'', T] cc i = Inr t"
    and fm: "func_mappings s ''push'' = Some H_pop_push"
    and cp: "code_patterns s ''_push constant'' = Some (template_text ps)"
    and ok: "list_all (piece_ok [''var_1'' \<mapsto> PStr T, ''var_2'' \<mapsto> PNone, ''var_3'' \<mapsto> PNone]) ps"
  shows "translate (Suc n) t s =
           Some (Inr (), s \<lparr> asm_code := asm_code s @ ''// push constant '' @ T @ [CHR 0x0A]
                   @ concat (map (fill [''var_1'' \<mapsto> PStr T, ''var_2'' \<mapsto> PNone, ''var_3'' \<mapsto> PNone]) ps)
                   @ [CHR 0x0A] \<rparr>)
         \<and> fill [''var_1'' \<mapsto> PStr T, ''var_2'' \<mapsto> PNone, ''var_3'' \<mapsto> PNone] (Var ''var_1'') = T"
proof -
  let ?kw = "[''var_1'' \<mapsto> PStr T, ''var_2'' \<mapsto> PNone, ''var_3'' \<mapsto> PNone]"
  let ?s = "make_comm t s"
  have td: "t = \<lparr> line = [''push'', ''constant'', T], class_name = cc, cmd = ''push'', idx = i, pop_push_expr = [] \<rparr>"
    using t by (simp add: Translator_def)
  have c: "cmd t = ''push''" and l: "line t = [''push'', ''constant'', T]" by (simp_all add: td)
  have pn: "pattern_name_of t H_pop_push = Inr ''_push constant''"
    by (simp add: pattern_name_of_def td)
  have hp: "pop_push_helper t = Inr (t \<lparr> pop_push_expr := [PStr T, PNone, PNone] \<rparr>)"
    using T by (simp add: pop_push_helper_def l Let_def)
  have hp': "(if cmd t \<in> {''pop'', ''push''} then pop_push_helper t else Inr t)
              = Inr (t \<lparr> pop_push_expr := [PStr T, PNone, PNone] \<rparr>)"
    using hp c by simp
  have fm': "func_mappings ?s (cmd t) = Some H_pop_push"
    and cp': "code_patterns ?s ''_push constant'' = Some (template_text ps)"
    using fm cp c by (simp_all add: make_comm_def)
  have no: "\<not> is_other H_pop_push" by (simp add: is_other_def)
  have ah: "apply_handler (translate n) H_pop_push (t \<lparr> pop_push_expr := [PStr T, PNone, PNone] \<rparr>) (template_text ps) ?s
      = Some (Inr (concat (map (fill ?kw) ps) @ [CHR 0x0A]), ?s)"
    using format_template [OF ok] by (simp add: apply_handler_def pop_push_def newline_def)
  have "translate (Suc n) t s = translate_body (translate n) t ?s"
    using c by simp
  also have "\<dots> = Some (Inr (), ?s \<lparr> asm_code := asm_code ?s @ concat (map (fill ?kw) ps) @ [CHR 0x0A] \<rparr>)"
    unfolding translate_body_dispatch [OF fm' no pn hp' cp'] ah by simp
  also have "?s \<lparr> asm_code := asm_code ?s @ concat (map (fill ?kw) ps) @ [CHR 0x0A] \<rparr>
      = s \<lparr> asm_code := asm_code s @ ''// push constant '' @ T @ [CHR 0x0A]
                   @ concat (map (fill ?kw) ps) @ [CHR 0x0A] \<rparr>"
    by (simp add: make_comm_def l)
  finally show ?thesis by simp
qed

theorem push_constant_token_witness:
  "py_int ''RETURN_7'' = Inl ValueError
   \<and> map_option (asm_code \<circ> snd)
       (translate 1 \<lparr> line = [''push'', ''constant'', ''RETURN_7''], class_name = ''Main'', cmd = ''push'',
                      idx = 3, pop_push_expr = [] \<rparr> example_cls)
     = Some (''// push constant RETURN_7\<newline>@RETURN_7\<newline>D=A\<newline>@SP\<newline>M=M+1\<newline>A=M-1\<newline>M=D\<newline>\<newline>'')"
proof -
  let ?ps = "[Text ''@'', Var ''var_1'', Text ''\<newline>D=A\<newline>@SP\<newline>M=M+1\<newline>A=M-1\<newline>M=D\<newline>'']"
  let ?t = "\<lparr> line = [''push'', ''constant'', ''RETURN_7''], class_name = ''Main'', cmd = ''push'',
                      idx = 3, pop_push_expr = [] \<rparr>"
  have T: "py_int ''RETURN_7'' = Inl ValueError" by code_simp
  have t: "Translator [''push'', ''constant'', ''RETURN_7''] ''Main'' 3 = Inr ?t"
    by (simp add: Translator_def)
  have fm: "func_mappings example_cls ''push'' = Some H_pop_push" by code_simp
  have cp: "code_patterns example_cls ''_push constant'' = Some (template_text ?ps)" by code_simp
  have ok: "list_all (piece_ok [''var_1'' \<mapsto> PStr ''RETURN_7'', ''var_2'' \<mapsto> PNone, ''var_3'' \<mapsto> PNone]) ?ps"
    by (simp add: plain_var brace_free_def)
  have a0: "asm_code example_cls = []"
    using create_mappings_keeps [of "\<lambda>_. False" example_patterns init_cls
      "fst (create_mappings (\<lambda>_. False) example_patterns init_cls)" example_cls]
    by (simp add: example_cls_def init_cls_def)
  from push_constant_token [OF T t fm cp ok, of 0]
  have "map_option (asm_code \<circ> snd) (translate 1 ?t example_cls)
     = Some (''// push constant RETURN_7\<newline>@RETURN_7\<newline>D=A\<newline>@SP\<newline>M=M+1\<newline>A=M-1\<newline>M=D\<newline>\<newline>'')"
    by (simp add: a0 del: translate.simps)
  with T show ?thesis by blast
qed

end
